theory Spec2Isabelle
  imports Complex_Main "HOL-Library.Word" "HOL-Library.Log_Nat" "HOL-Library.Monad_Syntax"
begin

section \<open>JavaScript strings\<close>

text \<open>
  A JavaScript string is a sequence of 16-bit code units; \<open>length\<close>, \<open>split\<close>,
  \<open>includes\<close>, \<open>trim\<close> and the regular expressions of \<open>parseDataText.ts\<close> (none has
  the \<open>u\<close> flag) all work on code units. \<open>utf16\<close> turns an Isabelle literal of
  ASCII characters into such a string.
\<close>

type_synonym jschar = "16 word"
type_synonym jsstring = "jschar list"

definition utf16 :: "string \<Rightarrow> jsstring" where
  "utf16 s = map of_char s"

abbreviation TAB :: jschar where "TAB \<equiv> 0x09"
abbreviation LF :: jschar where "LF \<equiv> 0x0A"
abbreviation CR :: jschar where "CR \<equiv> 0x0D"
abbreviation COMMA :: jschar where "COMMA \<equiv> 0x2C"

text \<open>
  The code units that \<open>String.prototype.trim\<close> strips and that \<open>\s\<close> matches:
  ECMAScript's WhiteSpace and LineTerminator productions.
\<close>

definition is_ws :: "jschar \<Rightarrow> bool" where
  "is_ws c \<longleftrightarrow>
     c = 0x09 \<or> c = 0x0A \<or> c = 0x0B \<or> c = 0x0C \<or> c = 0x0D \<or> c = 0x20 \<or>
     c = 0xA0 \<or> c = 0x1680 \<or> (0x2000 \<le> c \<and> c \<le> 0x200A) \<or>
     c = 0x2028 \<or> c = 0x2029 \<or> c = 0x202F \<or> c = 0x205F \<or> c = 0x3000 \<or>
     c = 0xFEFF"

definition trim :: "jsstring \<Rightarrow> jsstring" where
  "trim s = rev (dropWhile is_ws (rev (dropWhile is_ws s)))"

text \<open>\<open>s.split(d)\<close> for a one-unit separator \<open>d\<close>: always at least one piece.\<close>

fun split :: "jschar \<Rightarrow> jsstring \<Rightarrow> jsstring list" where
  "split d [] = [[]]"
| "split d (c # cs) =
     (if c = d then [] # split d cs
      else (case split d cs of t # ts \<Rightarrow> (c # t) # ts | [] \<Rightarrow> [[c]]))"

text \<open>\<open>.replace(/\r\n/g, "\n")\<close> and \<open>.replace(/\r/g, "\n")\<close>.\<close>

fun replace_crlf :: "jsstring \<Rightarrow> jsstring" where
  "replace_crlf (c # d # cs) =
     (if c = CR \<and> d = LF then LF # replace_crlf cs else c # replace_crlf (d # cs))"
| "replace_crlf cs = cs"

definition replace_cr :: "jsstring \<Rightarrow> jsstring" where
  "replace_cr s = map (\<lambda>c. if c = CR then LF else c) s"

section \<open>Errors and results\<close>

text \<open>
  One constructor for each \<open>throw\<close> of \<open>parseDataText\<close>, in source order, with the row
  number and the offending text where the message carries them. The first
  \<open>throw\<close> (\<open>typeof text !== "string"\<close>) has no constructor: the argument is a string
  by type.
\<close>

datatype error =
    NoDataLines
  | MixedDelimiterInLine
  | MixedDelimiterAcrossLines
  | InconsistentColumnCount
  | UnsupportedColumnCount
  | DelimiterColumnMismatch
  | EmptyDataRegion
  | RowShapeMismatch
  | InvalidY nat jsstring
  | NonFiniteY nat
  | InvalidIsoDate nat
  | InvalidX nat jsstring
  | NonFiniteNumber nat

section \<open>Steps 1 to 3: lines, delimiter, rows\<close>

definition lines_of :: "jsstring \<Rightarrow> jsstring list" where
  "lines_of text =
     filter (\<lambda>l. length l > 0) (map trim (split LF (replace_cr (replace_crlf text))))"

text \<open>
  The delimiter loop: \<open>commaLines\<close> and \<open>tabLines\<close> are threaded through, and the
  \<open>throw\<close> inside the loop ends it at the first line that has both.
\<close>

fun scan_delimiters :: "jsstring list \<Rightarrow> nat \<Rightarrow> nat \<Rightarrow> error + nat \<times> nat" where
  "scan_delimiters [] commaLines tabLines = Inr (commaLines, tabLines)"
| "scan_delimiters (l # ls) commaLines tabLines =
     (let hasComma = (COMMA \<in> set l);
          hasTab = (TAB \<in> set l);
          commaLines' = (if hasComma then commaLines + 1 else commaLines);
          tabLines' = (if hasTab then tabLines + 1 else tabLines)
      in if hasComma \<and> hasTab then Inl MixedDelimiterInLine
         else scan_delimiters ls commaLines' tabLines')"

definition detect_delimiter :: "jsstring list \<Rightarrow> error + jschar option" where
  "detect_delimiter lines =
     (case scan_delimiters lines 0 0 of
        Inl e \<Rightarrow> Inl e
      | Inr (commaLines, tabLines) \<Rightarrow>
          if commaLines > 0 \<and> tabLines > 0 then Inl MixedDelimiterAcrossLines
          else Inr (if commaLines > 0 then Some COMMA
                    else if tabLines > 0 then Some TAB else None))"

definition tokenize :: "jschar option \<Rightarrow> jsstring list \<Rightarrow> jsstring list list" where
  "tokenize delimiter lines =
     map (\<lambda>l. case delimiter of Some d \<Rightarrow> split d l | None \<Rightarrow> [l]) lines"

section \<open>Step 4: numbers\<close>

text \<open>
  A JavaScript Number: a finite double other than \<open>-0\<close> is the rational it denotes.
\<close>

datatype jsnumber = Finite rat | NegZero | PosInf | NegInf | NaN

fun isFinite :: "jsnumber \<Rightarrow> bool" where
  "isFinite (Finite _) = True"
| "isFinite NegZero = True"
| "isFinite _ = False"

subsection \<open>Rounding a positive fraction to the nearest double\<close>

text \<open>\<open>scale2 a b e\<close> is the fraction \<open>(a / b) / 2^e\<close>, as numerator and denominator.\<close>

definition scale2 :: "nat \<Rightarrow> nat \<Rightarrow> int \<Rightarrow> nat \<times> nat" where
  "scale2 a b e = (if 0 \<le> e then (a, b * 2 ^ nat e) else (a * 2 ^ nat (- e), b))"

text \<open>For \<open>a, b > 0\<close>: the \<open>k\<close> with \<open>2^k \<le> a / b < 2^(k+1)\<close>.\<close>

definition floor_log2 :: "nat \<Rightarrow> nat \<Rightarrow> int" where
  "floor_log2 a b =
     (let k = int (floorlog 2 a) - int (floorlog 2 b);
          (n, d) = scale2 a b k
      in if d \<le> n then k else k - 1)"

definition round_half_even :: "nat \<Rightarrow> nat \<Rightarrow> nat" where
  "round_half_even n d =
     (let f = n div d; r = n mod d
      in if 2 * r < d then f
         else if d < 2 * r then f + 1
         else if even f then f else f + 1)"

text \<open>
  IEEE 754 binary64, round to nearest, ties to even: 53 significant bits, the least
  exponent of a unit in the last place is \<open>-1074\<close> (subnormals), and a rounded value
  of \<open>2^1024\<close> or more is an infinity. \<open>neg\<close> is the sign; the magnitude is \<open>a / b\<close>.
  This is the correctly rounded conversion of the JavaScript engines; ECMAScript
  also allows a literal of more than 20 significant digits to be rounded from either
  neighbour at the 20th digit.
\<close>

definition to_double :: "bool \<Rightarrow> nat \<Rightarrow> nat \<Rightarrow> jsnumber" where
  "to_double neg a b =
     (if a = 0 then (if neg then NegZero else Finite 0)
      else
        let e = max (floor_log2 a b - 52) (- 1074);
            (n, d) = scale2 a b e;
            m = round_half_even n d;
            v = of_nat m * 2 powi e
        in if m = 0 then (if neg then NegZero else Finite 0)
           else if 2 ^ 1024 \<le> v then (if neg then NegInf else PosInf)
           else Finite (if neg then - v else v))"

subsection \<open>The pattern \<open>NUM_RE\<close>\<close>

definition is_digit :: "jschar \<Rightarrow> bool" where
  "is_digit c \<longleftrightarrow> 0x30 \<le> c \<and> c \<le> 0x39"

definition digits_val :: "jsstring \<Rightarrow> nat" where
  "digits_val ds = foldl (\<lambda>n c. 10 * n + unat (c - 0x30)) 0 ds"

record decimal =
  neg :: bool
  int_digits :: jsstring
  frac_digits :: jsstring
  exp_neg :: bool
  exp_digits :: jsstring

text \<open>\<open>[+-]?\<close>\<close>

fun opt_sign :: "jsstring \<Rightarrow> bool \<times> jsstring" where
  "opt_sign (c # cs) =
     (if c = 0x2D then (True, cs) else if c = 0x2B then (False, cs) else (False, c # cs))"
| "opt_sign [] = (False, [])"

text \<open>\<open>(?:[eE][+-]?\d+)?$\<close>: the sign and digits of the exponent, none for no exponent.\<close>

definition opt_exponent :: "jsstring \<Rightarrow> (bool \<times> jsstring) option" where
  "opt_exponent s =
     (case s of
        [] \<Rightarrow> Some (False, [])
      | c # cs \<Rightarrow>
          if c = 0x65 \<or> c = 0x45 then
            (let (eneg, ds) = opt_sign cs
             in if ds \<noteq> [] \<and> list_all is_digit ds then Some (eneg, ds) else None)
          else None)"

text \<open>
  \<open>/^[+-]?(?:\d+\.?\d*|\.\d+)(?:[eE][+-]?\d+)?$/\<close>. The classes of the pattern are
  disjoint (digits, the dot, \<open>e\<close>, the signs), so a match is decided left to right:
  the digits before the dot, the dot and the digits after it, then the exponent.
\<close>

definition NUM_RE :: "jsstring \<Rightarrow> decimal option" where
  "NUM_RE s =
     (let (sg, r) = opt_sign s;
          ip = takeWhile is_digit r;
          r1 = dropWhile is_digit r;
          (dot, r2) = (case r1 of c # cs \<Rightarrow> if c = 0x2E then (True, cs) else (False, r1)
                       | [] \<Rightarrow> (False, r1));
          fp = (if dot then takeWhile is_digit r2 else []);
          r3 = (if dot then dropWhile is_digit r2 else r2)
      in if ip = [] \<and> fp = [] then None
         else (case opt_exponent r3 of
                 None \<Rightarrow> None
               | Some (eneg, eds) \<Rightarrow>
                   Some \<lparr>neg = sg, int_digits = ip, frac_digits = fp,
                         exp_neg = eneg, exp_digits = eds\<rparr>))"

text \<open>
  The value of a decimal literal: the digits times \<open>10\<close> to the exponent less the
  number of fraction digits, rounded to a double.
\<close>

definition decimal_value :: "decimal \<Rightarrow> jsnumber" where
  "decimal_value d =
     (let m = digits_val (int_digits d @ frac_digits d);
          ex = (if exp_neg d then - int (digits_val (exp_digits d))
                else int (digits_val (exp_digits d))) - int (length (frac_digits d))
      in if 0 \<le> ex then to_double (neg d) (m * 10 ^ nat ex) 1
         else to_double (neg d) m (10 ^ nat (- ex)))"

subsection \<open>\<open>Number(s)\<close> on a string\<close>

text \<open>\<open>0x\<close>, \<open>0o\<close> and \<open>0b\<close> literals: the base and the digits.\<close>

definition digit_of :: "jschar \<Rightarrow> nat option" where
  "digit_of c =
     (if 0x30 \<le> c \<and> c \<le> 0x39 then Some (unat (c - 0x30))
      else if 0x61 \<le> c \<and> c \<le> 0x66 then Some (unat (c - 0x61) + 10)
      else if 0x41 \<le> c \<and> c \<le> 0x46 then Some (unat (c - 0x41) + 10)
      else None)"

definition radix_val :: "nat \<Rightarrow> jsstring \<Rightarrow> nat option" where
  "radix_val b ds =
     (if ds \<noteq> [] \<and> list_all (\<lambda>c. case digit_of c of Some v \<Rightarrow> v < b | None \<Rightarrow> False) ds
      then Some (foldl (\<lambda>n c. b * n + the (digit_of c)) 0 ds) else None)"

definition non_decimal :: "jsstring \<Rightarrow> nat option" where
  "non_decimal s =
     (case s of
        z # p # ds \<Rightarrow>
          if z \<noteq> 0x30 then None
          else if p = 0x78 \<or> p = 0x58 then radix_val 16 ds
          else if p = 0x6F \<or> p = 0x4F then radix_val 8 ds
          else if p = 0x62 \<or> p = 0x42 then radix_val 2 ds
          else None
      | _ \<Rightarrow> None)"

text \<open>
  ECMAScript's StringToNumber: white space is stripped, the empty string is \<open>0\<close>, a
  decimal literal (the language of \<open>NUM_RE\<close>) or a signed \<open>Infinity\<close> has its value, a
  non-decimal integer literal has its value, anything else is \<open>NaN\<close>.
\<close>

definition Number :: "jsstring \<Rightarrow> jsnumber" where
  "Number s =
     (let t = trim s
      in if t = [] then Finite 0
         else (case NUM_RE t of
                 Some d \<Rightarrow> decimal_value d
               | None \<Rightarrow>
                   if t = utf16 ''Infinity'' \<or> t = utf16 ''+Infinity'' then PosInf
                   else if t = utf16 ''-Infinity'' then NegInf
                   else (case non_decimal t of
                           Some n \<Rightarrow> to_double False n 1
                         | None \<Rightarrow> NaN)))"

definition isFiniteNumberString :: "jsstring \<Rightarrow> bool" where
  "isFiniteNumberString s =
     (if NUM_RE s = None then False
      else (let n = Number s in isFinite n))"

section \<open>Step 4: ISO dates\<close>

subsection \<open>\<open>Date.UTC\<close>\<close>

text \<open>
  ECMAScript's time arithmetic. Every argument that \<open>parseIsoToDate\<close> passes is an
  integer of at most four decimal digits, and every intermediate value is an integer
  below \<open>2^53\<close>, where the double arithmetic of the language is exact: the model is on
  \<open>int\<close>. A time value that is \<open>NaN\<close> is \<open>None\<close>.
\<close>

definition msPerDay :: int where "msPerDay = 86400000"

definition DayFromYear :: "int \<Rightarrow> int" where
  "DayFromYear y =
     365 * (y - 1970) + (y - 1969) div 4 - (y - 1901) div 100 + (y - 1601) div 400"

definition InLeapYear :: "int \<Rightarrow> bool" where
  "InLeapYear y \<longleftrightarrow> (y mod 4 = 0 \<and> y mod 100 \<noteq> 0) \<or> y mod 400 = 0"

text \<open>The day of the year on which month \<open>mn\<close> (0 to 11) begins.\<close>

definition month_start :: "bool \<Rightarrow> nat \<Rightarrow> int" where
  "month_start leap mn =
     (let l = (if leap then 1 else 0)
      in [0, 31, 59 + l, 90 + l, 120 + l, 151 + l, 181 + l, 212 + l, 243 + l,
          273 + l, 304 + l, 334 + l] ! mn)"

definition MakeDay :: "int \<Rightarrow> int \<Rightarrow> int \<Rightarrow> int" where
  "MakeDay year month date =
     (let ym = year + month div 12;
          mn = nat (month mod 12)
      in DayFromYear ym + month_start (InLeapYear ym) mn + date - 1)"

definition MakeTime :: "int \<Rightarrow> int \<Rightarrow> int \<Rightarrow> int \<Rightarrow> int" where
  "MakeTime hour minute sec ms = hour * 3600000 + minute * 60000 + sec * 1000 + ms"

definition MakeDate :: "int \<Rightarrow> int \<Rightarrow> int" where
  "MakeDate day time = day * msPerDay + time"

definition TimeClip :: "int \<Rightarrow> int option" where
  "TimeClip t = (if \<bar>t\<bar> > 8640000000000000 then None else Some t)"

definition MakeFullYear :: "int \<Rightarrow> int" where
  "MakeFullYear y = (if 0 \<le> y \<and> y \<le> 99 then 1900 + y else y)"

definition Date_UTC :: "int \<Rightarrow> int \<Rightarrow> int \<Rightarrow> int \<Rightarrow> int \<Rightarrow> int \<Rightarrow> int \<Rightarrow> int option" where
  "Date_UTC year month date hours minutes seconds ms =
     TimeClip (MakeDate (MakeDay (MakeFullYear year) month date)
                        (MakeTime hours minutes seconds ms))"

subsection \<open>The pattern \<open>ISO_RE\<close>\<close>

text \<open>The capture groups of \<open>ISO_RE\<close>; a group that did not take part is \<open>None\<close>.\<close>

record iso_groups =
  grpY :: jsstring
  grpMo :: jsstring
  grpD :: jsstring
  grph :: "jsstring option"
  grpmi :: "jsstring option"
  grpse :: "jsstring option"
  grpms :: "jsstring option"
  grptz :: "jsstring option"

text \<open>\<open>\d{n}\<close> at the head of a string: the digits and the rest.\<close>

definition take_digits :: "nat \<Rightarrow> jsstring \<Rightarrow> (jsstring \<times> jsstring) option" where
  "take_digits n s =
     (if n \<le> length s \<and> list_all is_digit (take n s) then Some (take n s, drop n s)
      else None)"

definition expect :: "jschar \<Rightarrow> jsstring \<Rightarrow> jsstring option" where
  "expect c s = (case s of x # xs \<Rightarrow> if x = c then Some xs else None | [] \<Rightarrow> None)"

text \<open>
  \<open>(?::(\d{2})(?:\.(\d{1,3}))?)?\<close>: seconds, milliseconds and the rest. What follows
  the group in \<open>ISO_RE\<close> is \<open>Z\<close>, a sign or the end, so a colon or a dot that the group
  cannot take, or a fourth digit, leaves no match at all.
\<close>

definition opt_seconds ::
    "jsstring \<Rightarrow> (jsstring option \<times> jsstring option \<times> jsstring) option" where
  "opt_seconds s =
     (case s of
        [] \<Rightarrow> Some (None, None, [])
      | c # cs \<Rightarrow>
          if c = 0x3A then
            do {
              (se, r) \<leftarrow> take_digits 2 cs;
              (case r of
                 [] \<Rightarrow> Some (Some se, None, r)
               | d # ds \<Rightarrow>
                   if d = 0x2E then
                     (let ms = takeWhile is_digit (take 3 ds)
                      in if ms = [] then None
                         else Some (Some se, Some ms, drop (length ms) ds))
                   else Some (Some se, None, r))
            }
          else Some (None, None, s))"

text \<open>\<open>(Z|[+-]\d{2}:\d{2})?$\<close>\<close>

definition opt_tz :: "jsstring \<Rightarrow> jsstring option option" where
  "opt_tz s =
     (case s of
        [] \<Rightarrow> Some None
      | c # cs \<Rightarrow>
          if c = 0x5A then (if cs = [] then Some (Some [c]) else None)
          else if c = 0x2B \<or> c = 0x2D then
            do {
              (hh, r) \<leftarrow> take_digits 2 cs;
              r \<leftarrow> expect 0x3A r;
              (mm, r) \<leftarrow> take_digits 2 r;
              if r = [] then Some (Some s) else None
            }
          else None)"

text \<open>
  \<open>/^(\d{4})-(\d{2})-(\d{2})(?:[T\s](\d{2}):(\d{2})(?::(\d{2})(?:\.(\d{1,3}))?)?(Z|[+-]\d{2}:\d{2})?)?$/\<close>
\<close>

definition ISO_RE :: "jsstring \<Rightarrow> iso_groups option" where
  "ISO_RE s =
     do {
       (Y, r) \<leftarrow> take_digits 4 s;
       r \<leftarrow> expect 0x2D r;
       (Mo, r) \<leftarrow> take_digits 2 r;
       r \<leftarrow> expect 0x2D r;
       (D, r) \<leftarrow> take_digits 2 r;
       (case r of
          [] \<Rightarrow> Some \<lparr>grpY = Y, grpMo = Mo, grpD = D, grph = None, grpmi = None,
                       grpse = None, grpms = None, grptz = None\<rparr>
        | c # cs \<Rightarrow>
            if c = 0x54 \<or> is_ws c then
              do {
                (h, r) \<leftarrow> take_digits 2 cs;
                r \<leftarrow> expect 0x3A r;
                (mi, r) \<leftarrow> take_digits 2 r;
                (se, ms, r) \<leftarrow> opt_seconds r;
                tz \<leftarrow> opt_tz r;
                Some \<lparr>grpY = Y, grpMo = Mo, grpD = D, grph = Some h, grpmi = Some mi,
                      grpse = se, grpms = ms, grptz = tz\<rparr>
              }
            else None)
     }"

subsection \<open>\<open>parseIsoToDate\<close>\<close>

text \<open>\<open>Number\<close> of a short string of digits, as an integer.\<close>

definition num :: "jsstring \<Rightarrow> int" where
  "num ds = int (digits_val ds)"

definition padEnd3 :: "jsstring \<Rightarrow> jsstring" where
  "padEnd3 s = s @ replicate (3 - length s) 0x30"

text \<open>
  The result is the time value of the \<open>Date\<close> returned, in milliseconds since the
  epoch; \<open>None\<close> is \<open>null\<close>. \<open>new Date(ts)\<close> clips \<open>ts\<close> once more, and a \<open>Date\<close> whose
  time value is \<open>NaN\<close> is returned as \<open>null\<close>.
\<close>

definition parseIsoToDate :: "jsstring \<Rightarrow> int option" where
  "parseIsoToDate s =
     (case ISO_RE s of
        None \<Rightarrow> None
      | Some m \<Rightarrow>
          let year = num (grpY m);
              month = num (grpMo m) - 1;
              day = num (grpD m);
              hh = (case grph m of Some h \<Rightarrow> num h | None \<Rightarrow> 0);
              mm = (case grpmi m of Some mi \<Rightarrow> num mi | None \<Rightarrow> 0);
              ss = (case grpse m of Some se \<Rightarrow> num se | None \<Rightarrow> 0);
              mss = (case grpms m of Some ms \<Rightarrow> num (padEnd3 ms) | None \<Rightarrow> 0);
              ts = (if grph m = None \<and> grptz m = None then
                      Date_UTC year month day 0 0 0 0
                    else if grptz m = Some [0x5A] \<or> grptz m = None then
                      Date_UTC year month day hh mm ss mss
                    else
                      (let tz = the (grptz m);
                           sign = (if hd tz = 0x2D then - 1 else 1);
                           parts = split 0x3A (tl tz);
                           toH = num (parts ! 0);
                           toM = num (parts ! 1);
                           offsetMin = sign * (toH * 60 + toM)
                       in map_option (\<lambda>t. t - offsetMin * 60000)
                            (Date_UTC year month day hh mm ss mss)));
              d = Option.bind ts TimeClip
          in d)"

section \<open>Steps 5 to 9: header, data region, coercion\<close>

text \<open>
  An X value is a Number (an index is the Number \<open>i\<close>) or a \<open>Date\<close>, given by its time
  value in milliseconds since the epoch.
\<close>

datatype xvalue = XNumber jsnumber | XDate int

record SequenceData =
  timeAxisName :: jsstring
  valueAxisName :: jsstring
  dataPoints :: "(xvalue \<times> jsnumber) list"

definition isHeaderRow :: "nat \<Rightarrow> jsstring list list \<Rightarrow> bool" where
  "isHeaderRow columns rows =
     (let first = hd rows
      in if columns = 1 then \<not> isFiniteNumberString (first ! 0)
         else
           (let xLooksData = (isFiniteNumberString (first ! 0)
                              \<or> parseIsoToDate (first ! 0) \<noteq> None);
                yLooksData = isFiniteNumberString (first ! 1)
            in \<not> (xLooksData \<and> yLooksData)))"

text \<open>\<open>s || dflt\<close> on strings: the empty string is falsy.\<close>

definition or_default :: "jsstring \<Rightarrow> jsstring \<Rightarrow> jsstring" where
  "or_default s dflt = (if s = [] then dflt else s)"

text \<open>
  The three coercion loops. \<open>i\<close> is the loop index, the list is
  \<open>dataRows.slice(i)\<close>, and the points come out in the order they are pushed.
\<close>

fun coerce_y_only :: "nat \<Rightarrow> nat \<Rightarrow> jsstring list list \<Rightarrow> error + (xvalue \<times> jsnumber) list" where
  "coerce_y_only startIdx i [] = Inr []"
| "coerce_y_only startIdx i (r # rs) =
     (let yRaw = trim (r ! 0)
      in if \<not> isFiniteNumberString yRaw then Inl (InvalidY (startIdx + i + 1) yRaw)
         else
           let y = Number yRaw
           in if \<not> isFinite y then Inl (NonFiniteY (startIdx + i + 1))
              else (case coerce_y_only startIdx (i + 1) rs of
                      Inl e \<Rightarrow> Inl e
                    | Inr ps \<Rightarrow> Inr ((XNumber (Finite (of_nat i)), y) # ps)))"

fun coerce_dates :: "nat \<Rightarrow> nat \<Rightarrow> jsstring list list \<Rightarrow> error + (xvalue \<times> jsnumber) list" where
  "coerce_dates startIdx i [] = Inr []"
| "coerce_dates startIdx i (r # rs) =
     (let xRaw = trim (r ! 0); yRaw = trim (r ! 1)
      in case parseIsoToDate xRaw of
           None \<Rightarrow> Inl (InvalidIsoDate (startIdx + i + 1))
         | Some d \<Rightarrow>
             if \<not> isFiniteNumberString yRaw then Inl (InvalidY (startIdx + i + 1) yRaw)
             else
               let y = Number yRaw
               in if \<not> isFinite y then Inl (NonFiniteY (startIdx + i + 1))
                  else (case coerce_dates startIdx (i + 1) rs of
                          Inl e \<Rightarrow> Inl e
                        | Inr ps \<Rightarrow> Inr ((XDate d, y) # ps)))"

fun coerce_numbers :: "nat \<Rightarrow> nat \<Rightarrow> jsstring list list \<Rightarrow> error + (xvalue \<times> jsnumber) list" where
  "coerce_numbers startIdx i [] = Inr []"
| "coerce_numbers startIdx i (r # rs) =
     (let xRaw = trim (r ! 0); yRaw = trim (r ! 1)
      in if \<not> isFiniteNumberString xRaw then Inl (InvalidX (startIdx + i + 1) xRaw)
         else if \<not> isFiniteNumberString yRaw then Inl (InvalidY (startIdx + i + 1) yRaw)
         else
           let x = Number xRaw; y = Number yRaw
           in if \<not> isFinite x \<or> \<not> isFinite y then Inl (NonFiniteNumber (startIdx + i + 1))
              else (case coerce_numbers startIdx (i + 1) rs of
                      Inl e \<Rightarrow> Inl e
                    | Inr ps \<Rightarrow> Inr ((XNumber x, y) # ps)))"

text \<open>
  What \<open>parseDataText\<close> does once \<open>rows\<close> and \<open>columns\<close> are known (from the helper
  \<open>isHeaderRow\<close> on).
\<close>

definition build :: "nat \<Rightarrow> jsstring list list \<Rightarrow> error + SequenceData" where
  "build columns rows =
     (let header = isHeaderRow columns rows;
          timeAxisName0 = (if columns = 2 then utf16 ''X'' else utf16 ''Index'');
          valueAxisName0 = utf16 ''Value'';
          valueAxisName1 =
            (if header then
               (if columns = 1 then or_default (hd rows ! 0) (utf16 ''Value'')
                else or_default (hd rows ! 1) (utf16 ''Value''))
             else valueAxisName0);
          timeAxisName1 =
            (if header then
               (if columns = 1 then utf16 ''Index'' else or_default (hd rows ! 0) (utf16 ''X''))
             else timeAxisName0);
          startIdx = (if header then 1 else 0);
          dataRows = drop startIdx rows
      in if length dataRows = 0 then Inl EmptyDataRegion
         else if list_ex (\<lambda>r. length r \<noteq> columns) dataRows then Inl RowShapeMismatch
         else
           let xAreDates =
                 (if columns = 2 then list_all (\<lambda>r. parseIsoToDate (r ! 0) \<noteq> None) dataRows
                  else False)
           in case (if columns = 1 then coerce_y_only startIdx 0 dataRows
                    else if xAreDates then coerce_dates startIdx 0 dataRows
                    else coerce_numbers startIdx 0 dataRows) of
                Inl e \<Rightarrow> Inl e
              | Inr ps \<Rightarrow>
                  Inr \<lparr>timeAxisName = timeAxisName1, valueAxisName = valueAxisName1,
                       dataPoints = ps\<rparr>)"

definition parseDataText :: "jsstring \<Rightarrow> error + SequenceData" where
  "parseDataText text =
     (let lines = lines_of text
      in if length lines = 0 then Inl NoDataLines
         else
           case detect_delimiter lines of
             Inl e \<Rightarrow> Inl e
           | Inr delimiter \<Rightarrow>
               let rows = tokenize delimiter lines;
                   colCounts = set (map length rows)
               in if card colCounts > 1 then Inl InconsistentColumnCount
                  else
                    let columns = length (hd rows)
                    in if columns \<noteq> 1 \<and> columns \<noteq> 2 then Inl UnsupportedColumnCount
                       else if delimiter \<noteq> None \<and> columns \<noteq> 2 then
                         Inl DelimiterColumnMismatch
                       else build columns rows)"

section \<open>The intermediate values of a parse\<close>

text \<open>
  The locals of \<open>parseDataText\<close> as functions of the text, for stating what a parse
  did: \<open>delimiter\<close>, \<open>rows\<close>, \<open>columns\<close>, \<open>startIdx\<close>, \<open>dataRows\<close> and \<open>xAreDates\<close>.
\<close>

definition delimiter_of :: "jsstring \<Rightarrow> jschar option" where
  "delimiter_of text = (case detect_delimiter (lines_of text) of Inr d \<Rightarrow> d | Inl _ \<Rightarrow> None)"

definition rows_of :: "jsstring \<Rightarrow> jsstring list list" where
  "rows_of text = tokenize (delimiter_of text) (lines_of text)"

definition columns_of :: "jsstring \<Rightarrow> nat" where
  "columns_of text = length (hd (rows_of text))"

definition startIdx_of :: "jsstring \<Rightarrow> nat" where
  "startIdx_of text = (if isHeaderRow (columns_of text) (rows_of text) then 1 else 0)"

definition dataRows_of :: "jsstring \<Rightarrow> jsstring list list" where
  "dataRows_of text = drop (startIdx_of text) (rows_of text)"

definition xAreDates_of :: "jsstring \<Rightarrow> bool" where
  "xAreDates_of text \<longleftrightarrow>
     columns_of text = 2 \<and> list_all (\<lambda>r. parseIsoToDate (r ! 0) \<noteq> None) (dataRows_of text)"

section \<open>The instant of a UTC date and time\<close>

text \<open>
  What the specification means by the instant of a date and a time of day in UTC: the
  day number of that date in the proleptic Gregorian calendar and the time within
  the day. The month is 1 to 12 as written, and a year below 100 is that year.
\<close>

definition utc_instant :: "int \<Rightarrow> int \<Rightarrow> int \<Rightarrow> int \<Rightarrow> int \<Rightarrow> int \<Rightarrow> int \<Rightarrow> int" where
  "utc_instant year month day hours minutes seconds ms =
     MakeDate (MakeDay year (month - 1) day) (MakeTime hours minutes seconds ms)"

section \<open>Evaluating the definitions on a given text\<close>

text \<open>
  The weak congruence rules make the simplifier evaluate a condition or a scrutinee
  before it enters a branch.
\<close>

lemma bind_weak_cong: "x = y \<Longrightarrow> Option.bind x f = Option.bind y f"
  by simp

lemma Let_weak_cong: "a = b \<Longrightarrow> Let a f = Let b f"
  by simp

lemma replicate_numeral: "replicate (numeral k) x = x # replicate (pred_numeral k) x"
  by (simp add: numeral_eq_Suc)

lemmas weak_congs =
  if_weak_cong option.case_cong_weak list.case_cong_weak prod.case_cong_weak
  sum.case_cong_weak bind_weak_cong Let_weak_cong

lemmas string_defs =
  utf16_def is_digit_def trim_def is_ws_def digits_val_def Let_def replicate_numeral
  lines_of_def replace_cr_def

lemmas number_defs =
  NUM_RE_def opt_exponent_def Number_def decimal_value_def to_double_def floor_log2_def
  scale2_def round_half_even_def compute_floorlog isFiniteNumberString_def non_decimal_def
  radix_val_def digit_of_def

lemmas date_defs =
  ISO_RE_def take_digits_def expect_def opt_seconds_def opt_tz_def parseIsoToDate_def
  num_def padEnd3_def Date_UTC_def TimeClip_def MakeDate_def MakeDay_def MakeTime_def
  MakeFullYear_def month_start_def InLeapYear_def DayFromYear_def msPerDay_def

lemmas parse_defs =
  parseDataText_def build_def detect_delimiter_def tokenize_def isHeaderRow_def
  or_default_def delimiter_of_def rows_of_def columns_of_def startIdx_of_def
  dataRows_of_def xAreDates_of_def

lemmas eval_defs = string_defs number_defs date_defs parse_defs

section \<open>Delimiter detection\<close>

lemma split_not_Nil: "split d s \<noteq> []"
  by (induction s) (auto split: list.splits)

lemma scan_delimiters_Inl:
  "scan_delimiters ls c t = Inl e \<longleftrightarrow>
     e = MixedDelimiterInLine \<and> (\<exists>l\<in>set ls. COMMA \<in> set l \<and> TAB \<in> set l)"
  by (induction ls arbitrary: c t) (auto simp: Let_def)

lemma scan_delimiters_Inr:
  "scan_delimiters ls c t = Inr (c', t') \<Longrightarrow>
     c' = c + length (filter (\<lambda>l. COMMA \<in> set l) ls) \<and>
     t' = t + length (filter (\<lambda>l. TAB \<in> set l) ls)"
proof (induction ls arbitrary: c t)
  case Nil
  then show ?case by simp
next
  case (Cons l ls)
  from Cons.prems obtain c1 t1 where
    step: "scan_delimiters ls c1 t1 = Inr (c', t')"
      "c1 = (if COMMA \<in> set l then c + 1 else c)" "t1 = (if TAB \<in> set l then t + 1 else t)"
    by (auto simp: Let_def split: if_splits)
  from Cons.IH [OF step(1)] step(2,3) show ?case by auto
qed

lemma filter_pos: "0 < length (filter P ls) \<longleftrightarrow> (\<exists>l\<in>set ls. P l)"
  by (induction ls) auto

lemma detect_delimiter_cases:
  "detect_delimiter ls =
     (if \<exists>l\<in>set ls. COMMA \<in> set l \<and> TAB \<in> set l then Inl MixedDelimiterInLine
      else if (\<exists>l\<in>set ls. COMMA \<in> set l) \<and> (\<exists>l\<in>set ls. TAB \<in> set l)
        then Inl MixedDelimiterAcrossLines
      else Inr (if \<exists>l\<in>set ls. COMMA \<in> set l then Some COMMA
                else if \<exists>l\<in>set ls. TAB \<in> set l then Some TAB else None))"
proof (cases "scan_delimiters ls 0 0")
  case (Inl e)
  then have "e = MixedDelimiterInLine \<and> (\<exists>l\<in>set ls. COMMA \<in> set l \<and> TAB \<in> set l)"
    by (simp add: scan_delimiters_Inl)
  with Inl show ?thesis
    by (simp add: detect_delimiter_def)
next
  case (Inr p)
  obtain c t where p: "p = (c, t)" by (cases p)
  from Inr have no: "\<not> (\<exists>l\<in>set ls. COMMA \<in> set l \<and> TAB \<in> set l)"
    using scan_delimiters_Inl [of ls 0 0 MixedDelimiterInLine] by auto
  from Inr p have "c = length (filter (\<lambda>l. COMMA \<in> set l) ls)"
    and "t = length (filter (\<lambda>l. TAB \<in> set l) ls)"
    using scan_delimiters_Inr [of ls 0 0 c t] by auto
  then have "0 < c \<longleftrightarrow> (\<exists>l\<in>set ls. COMMA \<in> set l)" "0 < t \<longleftrightarrow> (\<exists>l\<in>set ls. TAB \<in> set l)"
    by (simp_all add: filter_empty_conv)
  with Inr p no show ?thesis
    by (simp add: detect_delimiter_def)
qed

lemma coerce_y_only_err:
  "coerce_y_only s i rs = Inl e \<Longrightarrow> (\<exists>n t. e = InvalidY n t) \<or> (\<exists>n. e = NonFiniteY n)"
  by (induction rs arbitrary: i) (auto simp: Let_def split: if_splits sum.splits)

lemma coerce_dates_err:
  "coerce_dates s i rs = Inl e \<Longrightarrow>
     (\<exists>n t. e = InvalidY n t) \<or> (\<exists>n. e = NonFiniteY n) \<or> (\<exists>n. e = InvalidIsoDate n)"
  by (induction rs arbitrary: i) (auto simp: Let_def split: if_splits sum.splits option.splits)

lemma coerce_numbers_err:
  "coerce_numbers s i rs = Inl e \<Longrightarrow>
     (\<exists>n t. e = InvalidY n t) \<or> (\<exists>n t. e = InvalidX n t) \<or> (\<exists>n. e = NonFiniteNumber n)"
  by (induction rs arbitrary: i) (auto simp: Let_def split: if_splits sum.splits)

lemma build_err:
  "build c rows = Inl e \<Longrightarrow>
     e \<noteq> NoDataLines \<and> e \<noteq> MixedDelimiterInLine \<and> e \<noteq> MixedDelimiterAcrossLines \<and>
     e \<noteq> InconsistentColumnCount \<and> e \<noteq> UnsupportedColumnCount \<and> e \<noteq> DelimiterColumnMismatch"
  unfolding build_def Let_def
  by (auto split: if_splits sum.splits dest: coerce_y_only_err coerce_dates_err coerce_numbers_err)

text \<open>
  C4. Over the non-blank, trimmed lines: the parse fails with the
  mixed-delimiter-in-line error exactly when some line has both a comma and a tab;
  with the mixed-delimiter-across-lines error exactly when no line has both but some
  line has a comma and some line has a tab; and in every other case the delimiter
  detected is the comma if a line has one, the tab if a line has one, and none
  otherwise.
\<close>

theorem delimiter_detection:
  "(parseDataText text = Inl MixedDelimiterInLine \<longleftrightarrow>
      (\<exists>l\<in>set (lines_of text). COMMA \<in> set l \<and> TAB \<in> set l)) \<and>
   (parseDataText text = Inl MixedDelimiterAcrossLines \<longleftrightarrow>
      \<not> (\<exists>l\<in>set (lines_of text). COMMA \<in> set l \<and> TAB \<in> set l) \<and>
      (\<exists>l\<in>set (lines_of text). COMMA \<in> set l) \<and>
      (\<exists>l\<in>set (lines_of text). TAB \<in> set l)) \<and>
   (parseDataText text \<noteq> Inl MixedDelimiterInLine \<and>
    parseDataText text \<noteq> Inl MixedDelimiterAcrossLines \<longrightarrow>
      detect_delimiter (lines_of text) =
        Inr (if \<exists>l\<in>set (lines_of text). COMMA \<in> set l then Some COMMA
             else if \<exists>l\<in>set (lines_of text). TAB \<in> set l then Some TAB
             else None))"
proof (cases "lines_of text = []")
  case True
  then show ?thesis
    by (simp add: parseDataText_def detect_delimiter_cases)
next
  case False
  let ?ls = "lines_of text"
  show ?thesis
  proof (cases "detect_delimiter ?ls")
    case (Inl e)
    with False have "parseDataText text = Inl e"
      by (simp add: parseDataText_def)
    with Inl show ?thesis
      by (auto simp: detect_delimiter_cases split: if_splits)
  next
    case (Inr d)
    have "parseDataText text \<noteq> Inl MixedDelimiterInLine"
      "parseDataText text \<noteq> Inl MixedDelimiterAcrossLines"
      using False Inr build_err [of _ "tokenize d ?ls"]
      by (auto simp: parseDataText_def Let_def split: if_splits)
    with Inr show ?thesis
      by (auto simp: detect_delimiter_cases split: if_splits)
  qed
qed

theorem delimiter_detection_witness:
  "parseDataText (utf16 ''1,2'' @ [LF] @ utf16 ''3'' @ [TAB] @ utf16 ''4'')
     = Inl MixedDelimiterAcrossLines \<and>
   parseDataText (utf16 ''1,2'' @ [TAB] @ utf16 ''3'') = Inl MixedDelimiterInLine \<and>
   detect_delimiter (lines_of (utf16 ''1,2\<newline>3,4'')) = Inr (Some COMMA)"
proof -
  have 1: "lines_of (utf16 ''1,2'' @ [LF] @ utf16 ''3'' @ [TAB] @ utf16 ''4'')
             = [utf16 ''1,2'', utf16 ''3'' @ [TAB] @ utf16 ''4'']"
    by (simp add: string_defs cong: weak_congs)
  have 2: "lines_of (utf16 ''1,2'' @ [TAB] @ utf16 ''3'') = [utf16 ''1,2'' @ [TAB] @ utf16 ''3'']"
    by (simp add: string_defs cong: weak_congs)
  have 3: "lines_of (utf16 ''1,2\<newline>3,4'') = [utf16 ''1,2'', utf16 ''3,4'']"
    by (simp add: string_defs cong: weak_congs)
  show ?thesis
    using delimiter_detection [of "utf16 ''1,2'' @ [LF] @ utf16 ''3'' @ [TAB] @ utf16 ''4''"]
      delimiter_detection [of "utf16 ''1,2'' @ [TAB] @ utf16 ''3''"]
      delimiter_detection [of "utf16 ''1,2\<newline>3,4''"]
    unfolding 1 2 3 by (simp add: utf16_def)
qed

section \<open>Header detection reads the untrimmed tokens\<close>

text \<open>
  C10. Header detection tests the tokens as split, row coercion tests them trimmed:
  in the two-column text with the lines \<open>1, 2\<close> and \<open>3,4\<close> both tokens of the first
  row pass the numeric test once trimmed, yet the row is taken as the header, its
  tokens become the axis labels, and only the second row is data.
\<close>

theorem header_detection_untrimmed:
  "rows_of (utf16 ''1, 2\<newline>3,4'') = [[utf16 ''1'', utf16 '' 2''], [utf16 ''3'', utf16 ''4'']] \<and>
   isHeaderRow 2 (rows_of (utf16 ''1, 2\<newline>3,4'')) \<and>
   isFiniteNumberString (trim (utf16 ''1'')) \<and>
   isFiniteNumberString (trim (utf16 '' 2'')) \<and>
   \<not> isFiniteNumberString (utf16 '' 2'') \<and>
   parseDataText (utf16 ''1, 2\<newline>3,4'') =
     Inr \<lparr>timeAxisName = utf16 ''1'', valueAxisName = utf16 '' 2'',
          dataPoints = [(XNumber (Finite 3), Finite 4)]\<rparr>"
  by (simp add: eval_defs cong: weak_congs)

theorem header_detection_untrimmed_witness:
  "\<exists>text. isHeaderRow 2 (rows_of text) \<and>
     list_all (\<lambda>tok. isFiniteNumberString (trim tok)) (hd (rows_of text)) \<and>
     (\<exists>r. parseDataText text = Inr r \<and> length (dataPoints r) + 1 = length (rows_of text))"
  using header_detection_untrimmed
  by (intro exI [of _ "utf16 ''1, 2\<newline>3,4''"]) (elim conjE, simp)

section \<open>The shape of the data rows\<close>

lemma same_lengths:
  assumes "\<not> card (set (map length rows)) > 1" and "rows \<noteq> []"
  shows "\<forall>r\<in>set rows. length r = length (hd rows)"
proof
  fix r assume r: "r \<in> set rows"
  have c: "card (length ` set rows) \<le> Suc 0"
    using assms(1) by simp
  have *: "(card (length ` set rows) \<le> Suc 0) =
             (\<forall>a\<in>length ` set rows. \<forall>b\<in>length ` set rows. a = b)"
    by (rule card_le_Suc0_iff_eq) simp
  note q = c [unfolded *]
  from assms(2) have "hd rows \<in> set rows" by simp
  then have "length (hd rows) \<in> length ` set rows" by (rule imageI)
  moreover from r have "length r \<in> length ` set rows" by (rule imageI)
  ultimately show "length r = length (hd rows)" using q by blast
qed

lemma tokenize_Nil [simp]: "tokenize d ls = [] \<longleftrightarrow> ls = []"
  by (simp add: tokenize_def)

lemma build_not_RowShapeMismatch:
  assumes "\<forall>r\<in>set rows. length r = c"
  shows "build c rows \<noteq> Inl RowShapeMismatch"
proof -
  have "\<not> list_ex (\<lambda>r. length r \<noteq> c) (drop k rows)" for k
    using assms by (auto simp: list_ex_iff dest: in_set_dropD)
  then show ?thesis
    unfolding build_def Let_def
    by (auto split: if_splits sum.splits
          dest: coerce_y_only_err coerce_dates_err coerce_numbers_err)
qed

text \<open>
  C9. The check of the column count inside the data region can never fail: once every
  tokenized row has passed the global check (one row length only), every row that is
  left after dropping rows from the front has the column count detected from the
  first row, and no text makes \<open>parseDataText\<close> raise the error of that check.
\<close>

theorem row_shape_unreachable:
  "(rows \<noteq> [] \<and> \<not> card (set (map length rows)) > 1 \<longrightarrow>
      (\<forall>r\<in>set (drop k rows). length r = length (hd rows))) \<and>
   parseDataText text \<noteq> Inl RowShapeMismatch"
proof
  show "rows \<noteq> [] \<and> \<not> card (set (map length rows)) > 1 \<longrightarrow>
      (\<forall>r\<in>set (drop k rows). length r = length (hd rows))"
  proof (intro impI ballI, elim conjE)
    fix r
    assume ne: "rows \<noteq> []" and one: "\<not> card (set (map length rows)) > 1"
      and "r \<in> set (drop k rows)"
    then have "r \<in> set rows" by (blast dest: in_set_dropD)
    with same_lengths [OF one ne] show "length r = length (hd rows)" by blast
  qed
next
  show "parseDataText text \<noteq> Inl RowShapeMismatch"
  proof (cases "lines_of text = []")
    case True
    then show ?thesis by (simp add: parseDataText_def)
  next
    case False
    show ?thesis
    proof (cases "detect_delimiter (lines_of text)")
      case (Inl e)
      then have "e \<noteq> RowShapeMismatch"
        by (auto simp: detect_delimiter_cases split: if_splits)
      with False Inl show ?thesis by (simp add: parseDataText_def)
    next
      case (Inr d)
      let ?rows = "tokenize d (lines_of text)"
      from False have ne: "?rows \<noteq> []" by simp
      show ?thesis
      proof (cases "card (set (map length ?rows)) > 1")
        case True
        with False Inr show ?thesis by (simp add: parseDataText_def)
      next
        case one: False
        from same_lengths [OF one ne]
        have "build (length (hd ?rows)) ?rows \<noteq> Inl RowShapeMismatch"
          by (rule build_not_RowShapeMismatch)
        with False Inr one show ?thesis
          by (auto simp: parseDataText_def Let_def)
      qed
    qed
  qed
qed

theorem row_shape_unreachable_witness:
  "length [utf16 ''1'', utf16 ''2''] = length (hd [[utf16 ''a'', utf16 ''b''], [utf16 ''1'', utf16 ''2'']]) \<and>
   parseDataText (utf16 ''a,b\<newline>1,2'') \<noteq> Inl RowShapeMismatch"
  using row_shape_unreachable [of "[[utf16 ''a'', utf16 ''b''], [utf16 ''1'', utf16 ''2'']]" 1
      "utf16 ''a,b\<newline>1,2''"]
  by (simp add: utf16_def)

section \<open>Trimmed strings and number strings\<close>

lemma dropWhile_self: "\<not> P (hd xs) \<Longrightarrow> dropWhile P xs = xs"
  by (cases xs) auto

lemma trim_id: "s \<noteq> [] \<Longrightarrow> \<not> is_ws (hd s) \<Longrightarrow> \<not> is_ws (last s) \<Longrightarrow> trim s = s"
  by (simp add: trim_def dropWhile_self hd_rev)

lemma trim_ends: "trim s \<noteq> [] \<Longrightarrow> \<not> is_ws (hd (trim s)) \<and> \<not> is_ws (last (trim s))"
proof -
  assume ne: "trim s \<noteq> []"
  define t where "t = dropWhile is_ws s"
  define u where "u = dropWhile is_ws (rev t)"
  have tr: "trim s = rev u" by (simp add: trim_def t_def u_def)
  from ne tr have u: "u \<noteq> []" by simp
  then have "\<not> is_ws (hd u)" unfolding u_def by (rule hd_dropWhile)
  with u have l: "\<not> is_ws (last (rev u))" by (simp add: last_rev)
  have t: "t \<noteq> []"
  proof
    assume "t = []"
    then have "u = []" by (simp add: u_def)
    with u show False by contradiction
  qed
  then have h: "\<not> is_ws (hd t)" unfolding t_def by (rule hd_dropWhile)
  have "rev t = takeWhile is_ws (rev t) @ u" by (simp add: u_def)
  then have "rev (rev t) = rev (takeWhile is_ws (rev t) @ u)" by (rule arg_cong)
  then have "t = rev u @ rev (takeWhile is_ws (rev t))" by (simp only: rev_rev_ident rev_append)
  then have "hd t = hd (rev u @ rev (takeWhile is_ws (rev t)))" by (rule arg_cong)
  also have "\<dots> = hd (rev u)" using u by (simp only: hd_append2 rev_is_Nil_conv not_False_eq_True)
  finally have "\<not> is_ws (hd (rev u))" using h by simp
  with l show ?thesis by (simp only: tr simp_thms)
qed

lemma trim_idem [simp]: "trim (trim s) = trim s"
proof (cases "trim s = []")
  case True
  have "trim [] = []" by (simp add: trim_def)
  with True show ?thesis by simp
next
  case False
  with trim_ends [OF False] show ?thesis by (simp add: trim_id)
qed

lemma lines_of_trimmed: "l \<in> set (lines_of text) \<Longrightarrow> trim l = l \<and> l \<noteq> []"
  by (auto simp: lines_of_def)

lemma isFiniteNumberString_Number: "isFiniteNumberString s \<Longrightarrow> isFinite (Number s)"
  by (simp add: isFiniteNumberString_def Let_def split: if_splits)

lemma opt_sign_set: "opt_sign s = (sg, r) \<Longrightarrow> c \<in> set s \<Longrightarrow> c = 0x2B \<or> c = 0x2D \<or> c \<in> set r"
  by (cases s) (auto split: if_splits)

lemma in_take_or_drop: "c \<in> set xs \<Longrightarrow> c \<in> set (takeWhile P xs) \<or> c \<in> set (dropWhile P xs)"
  by (metis Un_iff set_append takeWhile_dropWhile_id)

lemma opt_exponent_chars:
  assumes "opt_exponent s = Some p" and "c \<in> set s"
  shows "is_digit c \<or> c = 0x2B \<or> c = 0x2D \<or> c = 0x65 \<or> c = 0x45"
proof (cases s)
  case Nil
  with assms show ?thesis by simp
next
  case (Cons e cs)
  obtain eneg ds where os: "opt_sign cs = (eneg, ds)" by (cases "opt_sign cs")
  from assms(1) Cons os have e: "e = 0x65 \<or> e = 0x45" and ds: "list_all is_digit ds"
    by (auto simp: opt_exponent_def split: if_splits)
  from assms(2) Cons have "c = e \<or> c \<in> set cs" by simp
  then show ?thesis
  proof
    assume "c = e" with e show ?thesis by blast
  next
    assume "c \<in> set cs"
    from opt_sign_set [OF os this] ds show ?thesis by (auto simp: list_all_iff)
  qed
qed

lemma NUM_RE_chars:
  assumes "NUM_RE s \<noteq> None" and "c \<in> set s"
  shows "is_digit c \<or> c = 0x2B \<or> c = 0x2D \<or> c = 0x2E \<or> c = 0x65 \<or> c = 0x45"
proof -
  obtain sg r where os: "opt_sign s = (sg, r)" by (cases "opt_sign s")
  let ?r1 = "dropWhile is_digit r"
  from opt_sign_set [OF os assms(2)]
  consider "c = 0x2B \<or> c = 0x2D" | "c \<in> set (takeWhile is_digit r)" | "c \<in> set ?r1"
    using in_take_or_drop by fastforce
  then show ?thesis
  proof cases
    case 1 then show ?thesis by blast
  next
    case 2 then show ?thesis by (auto dest: set_takeWhileD)
  next
    case 3
    show ?thesis
    proof (cases ?r1)
      case Nil with 3 show ?thesis by simp
    next
      case (Cons x r2)
      show ?thesis
      proof (cases "x = 0x2E")
        case True
        from assms(1) os Cons True obtain p where ex: "opt_exponent (dropWhile is_digit r2) = Some p"
          by (auto simp: NUM_RE_def Let_def split: if_splits option.splits)
        from 3 Cons True have "c = 0x2E \<or> c \<in> set r2" by auto
        then show ?thesis
        proof
          assume "c = 0x2E" then show ?thesis by blast
        next
          assume "c \<in> set r2"
          then have "c \<in> set (takeWhile is_digit r2) \<or> c \<in> set (dropWhile is_digit r2)"
            by (rule in_take_or_drop)
          then show ?thesis using opt_exponent_chars [OF ex] by (auto dest: set_takeWhileD)
        qed
      next
        case False
        from assms(1) os Cons False obtain p where ex: "opt_exponent ?r1 = Some p"
          by (auto simp: NUM_RE_def Let_def split: if_splits option.splits)
        from opt_exponent_chars [OF ex 3] show ?thesis by blast
      qed
    qed
  qed
qed

lemma finite_number_no_delimiter:
  assumes "isFiniteNumberString s"
  shows "COMMA \<notin> set s \<and> TAB \<notin> set s"
proof -
  from assms have "NUM_RE s \<noteq> None" by (auto simp: isFiniteNumberString_def split: if_splits)
  from NUM_RE_chars [OF this] show ?thesis by (fastforce simp: is_digit_def)
qed

section \<open>What a successful parse returns\<close>

lemma parse_Inr:
  assumes "parseDataText text = Inr r"
  shows "lines_of text \<noteq> []"
    and "detect_delimiter (lines_of text) = Inr (delimiter_of text)"
    and "rows_of text \<noteq> []"
    and "\<forall>row\<in>set (rows_of text). length row = columns_of text"
    and "columns_of text = 1 \<or> columns_of text = 2"
    and "delimiter_of text \<noteq> None \<longrightarrow> columns_of text = 2"
    and "build (columns_of text) (rows_of text) = Inr r"
proof -
  from assms show ne: "lines_of text \<noteq> []"
    by (auto simp: parseDataText_def Let_def split: if_splits)
  from assms ne obtain d where d: "detect_delimiter (lines_of text) = Inr d"
    by (cases "detect_delimiter (lines_of text)") (auto simp: parseDataText_def Let_def)
  then show dd: "detect_delimiter (lines_of text) = Inr (delimiter_of text)"
    by (simp add: delimiter_of_def)
  have rows: "rows_of text = tokenize d (lines_of text)"
    using d by (simp add: rows_of_def delimiter_of_def)
  from ne show rne: "rows_of text \<noteq> []" by (simp add: rows_of_def)
  from assms ne d have one: "\<not> card (set (map length (rows_of text))) > 1"
    unfolding rows by (auto simp: parseDataText_def Let_def split: if_splits)
  from same_lengths [OF one rne]
  show "\<forall>row\<in>set (rows_of text). length row = columns_of text"
    by (simp add: columns_of_def)
  from assms ne d one show "columns_of text = 1 \<or> columns_of text = 2"
    unfolding rows columns_of_def by (auto simp: parseDataText_def Let_def split: if_splits)
  from assms ne d one show "delimiter_of text \<noteq> None \<longrightarrow> columns_of text = 2"
    unfolding rows columns_of_def delimiter_of_def
    by (auto simp: parseDataText_def Let_def split: if_splits)
  from assms ne d one show "build (columns_of text) (rows_of text) = Inr r"
    unfolding rows columns_of_def by (auto simp: parseDataText_def Let_def split: if_splits)
qed

lemma build_Inr:
  assumes "build c rows = Inr r"
  defines "h \<equiv> isHeaderRow c rows"
  defines "k \<equiv> (if h then 1 else 0)"
  shows "drop k rows \<noteq> []"
    and "(if c = 1 then coerce_y_only k 0 (drop k rows)
          else if c = 2 \<and> list_all (\<lambda>r. parseIsoToDate (r ! 0) \<noteq> None) (drop k rows)
            then coerce_dates k 0 (drop k rows)
          else coerce_numbers k 0 (drop k rows)) = Inr (dataPoints r)"
    and "timeAxisName r =
           (if h then (if c = 1 then utf16 ''Index'' else or_default (hd rows ! 0) (utf16 ''X''))
            else if c = 2 then utf16 ''X'' else utf16 ''Index'')"
    and "valueAxisName r =
           (if h then (if c = 1 then or_default (hd rows ! 0) (utf16 ''Value'')
                       else or_default (hd rows ! 1) (utf16 ''Value''))
            else utf16 ''Value'')"
  using assms(1) unfolding build_def Let_def h_def k_def
  by (auto split: if_splits sum.splits)


lemma coerce_y_only_Inr:
  "coerce_y_only s i rs = Inr ps \<Longrightarrow>
     ps = map (\<lambda>(j, row). (XNumber (Finite (of_nat j)), Number (trim (row ! 0)))) (enumerate i rs) \<and>
     (\<forall>row\<in>set rs. isFiniteNumberString (trim (row ! 0)))"
proof (induction rs arbitrary: i ps)
  case Nil
  then show ?case by simp
next
  case (Cons r rs)
  from Cons.prems obtain qs where
    r: "isFiniteNumberString (trim (r ! 0))" and
    qs: "coerce_y_only s (i + 1) rs = Inr qs" and
    ps: "ps = (XNumber (Finite (of_nat i)), Number (trim (r ! 0))) # qs"
    by (auto simp: Let_def split: if_splits sum.splits)
  from Cons.IH [OF qs] r ps show ?case by simp
qed

lemma coerce_y_only_ok:
  "\<forall>row\<in>set rs. isFiniteNumberString (trim (row ! 0)) \<Longrightarrow>
     coerce_y_only s i rs =
       Inr (map (\<lambda>(j, row). (XNumber (Finite (of_nat j)), Number (trim (row ! 0)))) (enumerate i rs))"
  by (induction rs arbitrary: i) (simp_all add: Let_def isFiniteNumberString_Number)

lemma coerce_dates_Inr:
  "coerce_dates s i rs = Inr ps \<Longrightarrow>
     ps = map (\<lambda>row. (XDate (the (parseIsoToDate (trim (row ! 0)))), Number (trim (row ! 1)))) rs \<and>
     (\<forall>row\<in>set rs. parseIsoToDate (trim (row ! 0)) \<noteq> None \<and>
                     isFiniteNumberString (trim (row ! 1)))"
proof (induction rs arbitrary: i ps)
  case Nil
  then show ?case by simp
next
  case (Cons r rs)
  from Cons.prems obtain d qs where
    r: "parseIsoToDate (trim (r ! 0)) = Some d" "isFiniteNumberString (trim (r ! 1))" and
    qs: "coerce_dates s (i + 1) rs = Inr qs" and
    ps: "ps = (XDate d, Number (trim (r ! 1))) # qs"
    by (auto simp: Let_def split: if_splits sum.splits option.splits)
  from Cons.IH [OF qs] r ps show ?case by simp
qed

lemma coerce_numbers_Inr:
  "coerce_numbers s i rs = Inr ps \<Longrightarrow>
     ps = map (\<lambda>row. (XNumber (Number (trim (row ! 0))), Number (trim (row ! 1)))) rs \<and>
     (\<forall>row\<in>set rs. isFiniteNumberString (trim (row ! 0)) \<and>
                     isFiniteNumberString (trim (row ! 1)))"
proof (induction rs arbitrary: i ps)
  case Nil
  then show ?case by simp
next
  case (Cons r rs)
  from Cons.prems obtain qs where
    r: "isFiniteNumberString (trim (r ! 0))" "isFiniteNumberString (trim (r ! 1))" and
    qs: "coerce_numbers s (i + 1) rs = Inr qs" and
    ps: "ps = (XNumber (Number (trim (r ! 0))), Number (trim (r ! 1))) # qs"
    by (auto simp: Let_def split: if_splits sum.splits)
  from Cons.IH [OF qs] r ps show ?case by simp
qed

lemma map_fst_enumerate_map:
  "map fst (map (\<lambda>(j, row). (f j, g row)) (enumerate i rs)) = map f [i..<i + length rs]"
  by (induction rs arbitrary: i) (simp_all add: upt_rec)

lemma map_snd_enumerate_map:
  "map snd (map (\<lambda>(j, row). (f j, g row)) (enumerate i rs)) = map g rs"
  by (induction rs arbitrary: i) simp_all

text \<open>
  C7. A text whose non-blank lines are all finite-number strings (one column, no
  header) parses; the time axis is named \<open>Index\<close>, the X values are the indices
  \<open>0, \<dots>, n - 1\<close> in order, and the Y values are the numbers of the lines in order. In
  particular the lines \<open>10\<close>, \<open>20\<close>, \<open>30\<close> give the points \<open>(0,10)\<close>, \<open>(1,20)\<close>, \<open>(2,30)\<close>.
\<close>

theorem single_column_indices:
  "(lines_of text \<noteq> [] \<and> (\<forall>l\<in>set (lines_of text). isFiniteNumberString l) \<longrightarrow>
      (\<exists>r. parseDataText text = Inr r \<and>
           timeAxisName r = utf16 ''Index'' \<and> valueAxisName r = utf16 ''Value'' \<and>
           map fst (dataPoints r) =
             map (\<lambda>i. XNumber (Finite (of_nat i))) [0..<length (lines_of text)] \<and>
           map snd (dataPoints r) = map Number (lines_of text))) \<and>
   parseDataText (utf16 ''10\<newline>20\<newline>30'') =
     Inr \<lparr>timeAxisName = utf16 ''Index'', valueAxisName = utf16 ''Value'',
          dataPoints = [(XNumber (Finite 0), Finite 10), (XNumber (Finite 1), Finite 20),
                        (XNumber (Finite 2), Finite 30)]\<rparr>"
proof (intro conjI impI)
  let ?ls = "lines_of text"
  let ?rows = "map (\<lambda>l. [l]) ?ls"
  let ?ps = "map (\<lambda>(j, row). (XNumber (Finite (of_nat j)), Number (trim (row ! 0))))
               (enumerate 0 ?rows)"
  assume a: "?ls \<noteq> [] \<and> (\<forall>l\<in>set ?ls. isFiniteNumberString l)"
  then have ne: "?ls \<noteq> []" and num: "\<forall>l\<in>set ?ls. isFiniteNumberString l" by simp_all
  from num have "\<forall>l\<in>set ?ls. COMMA \<notin> set l \<and> TAB \<notin> set l"
    by (blast dest: finite_number_no_delimiter)
  then have dd: "detect_delimiter ?ls = Inr None"
    by (simp add: detect_delimiter_cases)
  define rows where "rows = tokenize None ?ls"
  have tok: "rows = ?rows"
    by (simp add: rows_def tokenize_def)
  from ne obtain l0 where "l0 \<in> set ?ls" by (cases ?ls) auto
  then have "length ` (\<lambda>l. [l]) ` set ?ls = {1}" by (auto simp: image_iff)
  then have "set (map length rows) = {1}"
    unfolding tok by (simp only: set_map)
  then have c1: "\<not> 1 < card (set (map length rows))" by simp
  from ne have hd: "hd rows = [hd ?ls]" unfolding tok by (simp add: hd_map)
  from ne num have "isFiniteNumberString (hd ?ls)" by simp
  then have nh: "\<not> isHeaderRow 1 rows"
    by (simp add: isHeaderRow_def hd)
  have tr: "\<forall>row\<in>set ?rows. trim (row ! 0) = row ! 0"
    by (auto dest: lines_of_trimmed)
  with num have "\<forall>row\<in>set ?rows. isFiniteNumberString (trim (row ! 0))" by auto
  then have co: "coerce_y_only 0 0 rows = Inr ?ps"
    unfolding tok by (rule coerce_y_only_ok)
  have shape: "\<not> list_ex (\<lambda>r. length r \<noteq> 1) rows"
    unfolding tok by (simp add: list_ex_iff)
  from ne have rne: "rows \<noteq> []" unfolding tok by simp
  from rne nh co shape have b: "build 1 rows =
      Inr \<lparr>timeAxisName = utf16 ''Index'', valueAxisName = utf16 ''Value'', dataPoints = ?ps\<rparr>"
    by (simp add: build_def)
  from hd have hdl: "length (hd rows) = 1" by simp
  from ne dd c1 hdl b have p: "parseDataText text =
      Inr \<lparr>timeAxisName = utf16 ''Index'', valueAxisName = utf16 ''Value'', dataPoints = ?ps\<rparr>"
    by (simp add: parseDataText_def Let_def rows_def [symmetric])
  have x: "map fst ?ps = map (\<lambda>i. XNumber (Finite (of_nat i))) [0..<length ?ls]"
    by (simp only: map_fst_enumerate_map) simp
  have "map snd ?ps = map (\<lambda>row. Number (trim (row ! 0))) ?rows"
    by (simp only: map_snd_enumerate_map)
  also have "\<dots> = map Number ?ls"
    using tr by (simp add: comp_def)
  finally have y: "map snd ?ps = map Number ?ls" .
  from p x y show "\<exists>r. parseDataText text = Inr r \<and>
           timeAxisName r = utf16 ''Index'' \<and> valueAxisName r = utf16 ''Value'' \<and>
           map fst (dataPoints r) =
             map (\<lambda>i. XNumber (Finite (of_nat i))) [0..<length (lines_of text)] \<and>
           map snd (dataPoints r) = map Number (lines_of text)"
    by simp
next
  show "parseDataText (utf16 ''10\<newline>20\<newline>30'') =
     Inr \<lparr>timeAxisName = utf16 ''Index'', valueAxisName = utf16 ''Value'',
          dataPoints = [(XNumber (Finite 0), Finite 10), (XNumber (Finite 1), Finite 20),
                        (XNumber (Finite 2), Finite 30)]\<rparr>"
    by (simp add: eval_defs cong: weak_congs)
qed

theorem single_column_indices_witness:
  "\<exists>r. parseDataText (utf16 ''7\<newline>-2.5\<newline>1e3'') = Inr r \<and>
       timeAxisName r = utf16 ''Index'' \<and>
       map fst (dataPoints r) = [XNumber (Finite 0), XNumber (Finite 1), XNumber (Finite 2)] \<and>
       map snd (dataPoints r) = [Finite 7, Finite (- 5 / 2), Finite 1000]"
proof -
  let ?t = "utf16 ''7\<newline>-2.5\<newline>1e3''"
  have l: "lines_of ?t = [utf16 ''7'', utf16 ''-2.5'', utf16 ''1e3'']"
    by (simp add: string_defs cong: weak_congs)
  have n: "isFiniteNumberString (utf16 ''7'')" "isFiniteNumberString (utf16 ''-2.5'')"
    "isFiniteNumberString (utf16 ''1e3'')"
    by (simp_all add: string_defs number_defs cong: weak_congs)
  have v: "Number (utf16 ''7'') = Finite 7" "Number (utf16 ''-2.5'') = Finite (- 5 / 2)"
    "Number (utf16 ''1e3'') = Finite 1000"
    by (simp_all add: string_defs number_defs cong: weak_congs)
  from single_column_indices [of ?t]
  have imp: "lines_of ?t \<noteq> [] \<and> (\<forall>l\<in>set (lines_of ?t). isFiniteNumberString l) \<longrightarrow>
      (\<exists>r. parseDataText ?t = Inr r \<and>
           timeAxisName r = utf16 ''Index'' \<and> valueAxisName r = utf16 ''Value'' \<and>
           map fst (dataPoints r) =
             map (\<lambda>i. XNumber (Finite (of_nat i))) [0..<length (lines_of ?t)] \<and>
           map snd (dataPoints r) = map Number (lines_of ?t))"
    by (rule conjunct1)
  have pre: "lines_of ?t \<noteq> [] \<and> (\<forall>l\<in>set (lines_of ?t). isFiniteNumberString l)"
    unfolding l using n by simp
  from imp pre obtain r where r: "parseDataText ?t = Inr r" "timeAxisName r = utf16 ''Index''"
    "map fst (dataPoints r) = map (\<lambda>i. XNumber (Finite (of_nat i))) [0..<length (lines_of ?t)]"
    "map snd (dataPoints r) = map Number (lines_of ?t)"
    by blast
  from r(3) have x: "map fst (dataPoints r) = [XNumber (Finite 0), XNumber (Finite 1), XNumber (Finite 2)]"
    unfolding l by simp
  from r(4) have y: "map snd (dataPoints r) = [Finite 7, Finite (- 5 / 2), Finite 1000]"
    unfolding l using v by simp
  from r(1,2) x y show ?thesis by (intro exI [of _ r]) simp
qed

section \<open>Header labels\<close>

text \<open>
  C3. When the first row is detected as a header, the axis labels returned are the
  header tokens themselves wherever these are not empty (with one column the token
  labels the value axis and the time axis is \<open>Index\<close>). In particular the text with the
  lines \<open>Time,Temp\<close>, \<open>2024-01-01,10\<close>, \<open>2024-01-02,12\<close> gives the labels \<open>Time\<close> and
  \<open>Temp\<close> and the two points at midnight UTC of the two dates, in that order.
\<close>

theorem header_labels:
  "(parseDataText text = Inr r \<and> isHeaderRow (columns_of text) (rows_of text) \<longrightarrow>
      (columns_of text = 1 \<longrightarrow>
         timeAxisName r = utf16 ''Index'' \<and>
         (hd (rows_of text) ! 0 \<noteq> [] \<longrightarrow> valueAxisName r = hd (rows_of text) ! 0)) \<and>
      (columns_of text = 2 \<longrightarrow>
         (hd (rows_of text) ! 0 \<noteq> [] \<longrightarrow> timeAxisName r = hd (rows_of text) ! 0) \<and>
         (hd (rows_of text) ! 1 \<noteq> [] \<longrightarrow> valueAxisName r = hd (rows_of text) ! 1))) \<and>
   parseDataText (utf16 ''Time,Temp\<newline>2024-01-01,10\<newline>2024-01-02,12'') =
     Inr \<lparr>timeAxisName = utf16 ''Time'', valueAxisName = utf16 ''Temp'',
          dataPoints = [(XDate 1704067200000, Finite 10), (XDate 1704153600000, Finite 12)]\<rparr> \<and>
   parseIsoToDate (utf16 ''2024-01-01T00:00:00Z'') = Some 1704067200000 \<and>
   parseIsoToDate (utf16 ''2024-01-02T00:00:00Z'') = Some 1704153600000"
proof (intro conjI impI)
  assume a: "parseDataText text = Inr r \<and> isHeaderRow (columns_of text) (rows_of text)"
  then have b: "build (columns_of text) (rows_of text) = Inr r"
    and h: "isHeaderRow (columns_of text) (rows_of text)"
    by (simp_all add: parse_Inr)
  note t = build_Inr(3) [OF b] and v = build_Inr(4) [OF b]
  {
    assume "columns_of text = 1"
    with t h show "timeAxisName r = utf16 ''Index''" by simp
    assume "hd (rows_of text) ! 0 \<noteq> []"
    with v h \<open>columns_of text = 1\<close> show "valueAxisName r = hd (rows_of text) ! 0"
      by (simp add: or_default_def)
  }
  {
    assume c: "columns_of text = 2"
    {
      assume "hd (rows_of text) ! 0 \<noteq> []"
      with t h c show "timeAxisName r = hd (rows_of text) ! 0"
        by (simp add: or_default_def)
    }
    {
      assume "hd (rows_of text) ! 1 \<noteq> []"
      with v h c show "valueAxisName r = hd (rows_of text) ! 1"
        by (simp add: or_default_def)
    }
  }
next
  show "parseDataText (utf16 ''Time,Temp\<newline>2024-01-01,10\<newline>2024-01-02,12'') =
     Inr \<lparr>timeAxisName = utf16 ''Time'', valueAxisName = utf16 ''Temp'',
          dataPoints = [(XDate 1704067200000, Finite 10), (XDate 1704153600000, Finite 12)]\<rparr>"
    by (simp add: eval_defs cong: weak_congs)
next
  show "parseIsoToDate (utf16 ''2024-01-01T00:00:00Z'') = Some 1704067200000"
    by (simp add: string_defs date_defs cong: weak_congs)
next
  show "parseIsoToDate (utf16 ''2024-01-02T00:00:00Z'') = Some 1704153600000"
    by (simp add: string_defs date_defs cong: weak_congs)
qed

theorem header_labels_witness:
  "isHeaderRow (columns_of (utf16 ''t,v\<newline>1,2'')) (rows_of (utf16 ''t,v\<newline>1,2'')) \<and>
   (\<exists>r. parseDataText (utf16 ''t,v\<newline>1,2'') = Inr r \<and>
        timeAxisName r = utf16 ''t'' \<and> valueAxisName r = utf16 ''v'')"
proof -
  let ?t = "utf16 ''t,v\<newline>1,2''"
  have p: "parseDataText ?t = Inr \<lparr>timeAxisName = utf16 ''t'', valueAxisName = utf16 ''v'',
          dataPoints = [(XNumber (Finite 1), Finite 2)]\<rparr>"
    by (simp add: eval_defs cong: weak_congs)
  have rows: "rows_of ?t = [[utf16 ''t'', utf16 ''v''], [utf16 ''1'', utf16 ''2'']]"
    by (simp add: eval_defs cong: weak_congs)
  have c: "columns_of ?t = 2"
    by (simp add: columns_of_def rows)
  have h: "isHeaderRow (columns_of ?t) (rows_of ?t)"
    unfolding c rows by (simp add: eval_defs cong: weak_congs)
  have ne: "hd (rows_of ?t) ! 0 \<noteq> []" "hd (rows_of ?t) ! 1 \<noteq> []"
    unfolding rows by (simp_all add: utf16_def)
  from header_labels [of ?t] p h c ne
  have "timeAxisName \<lparr>timeAxisName = utf16 ''t'', valueAxisName = utf16 ''v'',
          dataPoints = [(XNumber (Finite 1), Finite 2)]\<rparr> = hd (rows_of ?t) ! 0"
    by blast
  with p h rows show ?thesis by simp
qed

section \<open>Digits and the range of Date.UTC\<close>

lemma digit_not_ws: "is_digit c \<Longrightarrow> \<not> is_ws c"
  unfolding is_digit_def is_ws_def word_le_nat_alt word_unat_eq_iff
  by simp

lemma digit_le_9: "is_digit c \<Longrightarrow> unat (c - 0x30) \<le> 9"
  unfolding is_digit_def by (auto simp: unat_sub word_le_nat_alt)

lemma foldl_digits_bound:
  "list_all is_digit ds \<Longrightarrow>
     foldl (\<lambda>n c. 10 * n + unat (c - 0x30)) n ds < (n + 1) * 10 ^ length ds"
proof (induction ds arbitrary: n)
  case Nil
  then show ?case by simp
next
  case (Cons c ds)
  from Cons.prems have c: "unat (c - 0x30) \<le> 9" and ds: "list_all is_digit ds"
    by (simp_all add: digit_le_9)
  let ?m = "10 * n + unat (c - 0x30)"
  from Cons.IH [OF ds, of ?m]
  have "foldl (\<lambda>n c. 10 * n + unat (c - 0x30)) ?m ds < (?m + 1) * 10 ^ length ds" .
  also from c have "(?m + 1) * 10 ^ length ds \<le> (10 * (n + 1)) * 10 ^ length ds"
    by (intro mult_right_mono) simp_all
  finally show ?case by (simp add: algebra_simps)
qed

lemma num_bounds: "list_all is_digit ds \<Longrightarrow> 0 \<le> num ds \<and> num ds < 10 ^ length ds"
proof -
  assume "list_all is_digit ds"
  from foldl_digits_bound [OF this, of 0] have "digits_val ds < 10 ^ length ds"
    by (simp add: digits_val_def)
  then have "int (digits_val ds) < int (10 ^ length ds)"
    by (simp only: of_nat_less_iff)
  then show ?thesis by (simp add: num_def)
qed

lemma take_digits_Some:
  "take_digits n s = Some (a, r) \<Longrightarrow> s = a @ r \<and> length a = n \<and> list_all is_digit a"
  by (auto simp: take_digits_def split: if_splits)

lemma expect_Some: "expect c s = Some r \<Longrightarrow> s = c # r"
  by (auto simp: expect_def split: list.splits if_splits)

lemma month_start_bounds: "mn < 12 \<Longrightarrow> 0 \<le> month_start l mn \<and> month_start l mn \<le> 335"
proof -
  assume "mn < 12"
  then have "mn = 0 \<or> mn = 1 \<or> mn = 2 \<or> mn = 3 \<or> mn = 4 \<or> mn = 5 \<or> mn = 6
    \<or> mn = 7 \<or> mn = 8 \<or> mn = 9 \<or> mn = 10 \<or> mn = 11"
    by arith
  then show ?thesis
    by (elim disjE) (simp_all add: month_start_def Let_def)
qed

lemma div_bounds:
  fixes z k :: int
  assumes "0 < k"
  shows "k * (z div k) \<le> z" and "z < k * (z div k) + k"
proof -
  have e: "z = k * (z div k) + z mod k" by simp
  from assms have "0 \<le> z mod k" "z mod k < k" by simp_all
  with e show "k * (z div k) \<le> z" and "z < k * (z div k) + k" by linarith+
qed

lemma DayFromYear_bounds:
  assumes "99 \<le> y" "y \<le> 10007"
  shows "- 700000 \<le> DayFromYear y \<and> DayFromYear y \<le> 3000000"
proof -
  define a where "a = (y - 1969) div 4"
  define b where "b = (y - 1901) div 100"
  define c where "c = (y - 1601) div 400"
  have a: "4 * a \<le> y - 1969" "y - 1969 < 4 * a + 4"
    unfolding a_def by (rule div_bounds, simp)+
  have b: "100 * b \<le> y - 1901" "y - 1901 < 100 * b + 100"
    unfolding b_def by (rule div_bounds, simp)+
  have c: "400 * c \<le> y - 1601" "y - 1601 < 400 * c + 400"
    unfolding c_def by (rule div_bounds, simp)+
  have d: "DayFromYear y = 365 * (y - 1970) + a - b + c"
    by (simp add: DayFromYear_def a_def b_def c_def)
  from assms a b c have lo: "- 700000 \<le> 365 * (y - 1970) + a - b + c"
    by (simp add: algebra_simps)
  from assms a b c have hi: "365 * (y - 1970) + a - b + c \<le> 3000000"
    by (simp add: algebra_simps)
  from lo hi show ?thesis
    unfolding d by simp
qed

lemma MakeDay_bounds:
  assumes "0 \<le> y" "y \<le> 9999" "- 1 \<le> mo" "mo \<le> 98" "0 \<le> d" "d \<le> 99"
  shows "- 700001 \<le> MakeDay (MakeFullYear y) mo d \<and> MakeDay (MakeFullYear y) mo d \<le> 3000500"
proof -
  define yf where "yf = MakeFullYear y"
  define q where "q = mo div 12"
  from assms(1,2) have yf: "100 \<le> yf" "yf \<le> 9999"
    by (auto simp: yf_def MakeFullYear_def)
  have q: "12 * q \<le> mo" "mo < 12 * q + 12"
    unfolding q_def by (rule div_bounds, simp)+
  with assms(3,4) have q1: "- 1 \<le> q" by linarith
  from q assms(3,4) have q2: "q \<le> 8" by linarith
  from q1 yf have ym1: "99 \<le> yf + q" by linarith
  from q2 yf have ym2: "yf + q \<le> 10007" by linarith
  note ym = ym1 ym2
  define ms where "ms = month_start (InLeapYear (yf + q)) (nat (mo mod 12))"
  define dy where "dy = DayFromYear (yf + q)"
  have "nat (mo mod 12) < 12" by simp
  from month_start_bounds [OF this, of "InLeapYear (yf + q)"]
  have ms: "0 \<le> ms" "ms \<le> 335" by (simp_all add: ms_def)
  from DayFromYear_bounds [OF ym] have dy: "- 700000 \<le> dy" "dy \<le> 3000000"
    by (simp_all add: dy_def)
  have e: "MakeDay (MakeFullYear y) mo d = dy + ms + d - 1"
    by (simp add: MakeDay_def Let_def dy_def ms_def yf_def q_def)
  from ms dy assms(5,6) have lo: "- 700001 \<le> dy + ms + d - 1"
    by linarith
  from ms dy assms(5,6) have hi: "dy + ms + d - 1 \<le> 3000500"
    by linarith
  from lo hi show ?thesis
    unfolding e by simp
qed

lemma Date_UTC_bounds:
  assumes "0 \<le> y" "y \<le> 9999" "- 1 \<le> mo" "mo \<le> 98" "0 \<le> d" "d \<le> 99"
    and "0 \<le> h" "h \<le> 99" "0 \<le> mi" "mi \<le> 99" "0 \<le> s" "s \<le> 99" "0 \<le> ms" "ms \<le> 999"
  shows "\<exists>t. Date_UTC y mo d h mi s ms = Some t \<and> \<bar>t\<bar> \<le> 300000000000000"
proof -
  define day where "day = MakeDay (MakeFullYear y) mo d"
  define time where "time = MakeTime h mi s ms"
  from MakeDay_bounds [OF assms(1-6)] have day: "- 700001 \<le> day" "day \<le> 3000500"
    by (simp_all add: day_def)
  from assms(7-14) have t1: "0 \<le> time"
    unfolding time_def MakeTime_def by linarith
  from assms(7-14) have t2: "time \<le> 400000000"
    unfolding time_def MakeTime_def by linarith
  note time = t1 t2
  from day time have "\<bar>day * 86400000 + time\<bar> \<le> 300000000000000"
    by linarith
  then show ?thesis
    by (simp add: Date_UTC_def TimeClip_def MakeDate_def msPerDay_def day_def time_def)
qed

section \<open>The pattern ISO_RE and parseIsoToDate\<close>

lemma opt_seconds_SomeD:
  assumes "opt_seconds r2 = Some (se, ms, r3)"
  shows "(\<forall>sd. se = Some sd \<longrightarrow> length sd = 2 \<and> list_all is_digit sd) \<and>
         (\<forall>md. ms = Some md \<longrightarrow> length md \<le> 3 \<and> list_all is_digit md) \<and>
         (r2 = r3 \<or> (\<exists>sd. sd \<noteq> [] \<and> list_all is_digit sd \<and>
                          (r2 = 0x3A # sd @ r3 \<or>
                           (\<exists>md. md \<noteq> [] \<and> list_all is_digit md \<and> r2 = 0x3A # sd @ 0x2E # md @ r3))))"
proof (cases r2)
  case Nil
  with assms show ?thesis by (simp add: opt_seconds_def)
next
  case (Cons c cs)
  show ?thesis
  proof (cases "c = 0x3A")
    case False
    with assms Cons show ?thesis by (simp add: opt_seconds_def)
  next
    case True
    with assms Cons obtain sd r where td: "take_digits 2 cs = Some (sd, r)"
      by (auto simp: opt_seconds_def split: Option.bind_splits)
    from take_digits_Some [OF td] have cs: "cs = sd @ r" "length sd = 2" "list_all is_digit sd"
      by simp_all
    then have sdne: "sd \<noteq> []" by auto
    show ?thesis
    proof (cases r)
      case Nil
      with assms Cons True td cs sdne show ?thesis
        by (auto simp: opt_seconds_def)
    next
      case (Cons d ds)
      show ?thesis
      proof (cases "d = 0x2E")
        case False
        with assms \<open>r2 = c # cs\<close> True td cs Cons sdne show ?thesis
          by (auto simp: opt_seconds_def)
      next
        case dot: True
        let ?md = "takeWhile is_digit (take 3 ds)"
        from assms \<open>r2 = c # cs\<close> True td Cons dot
        have md: "?md \<noteq> []" "se = Some sd" "ms = Some ?md" "r3 = drop (length ?md) ds"
          by (auto simp: opt_seconds_def Let_def split: if_splits)
        have "length ?md \<le> length (take 3 ds)" by (rule length_takeWhile_le)
        then have len: "length ?md \<le> 3" by simp
        have dig: "list_all is_digit ?md"
          by (auto simp: list_all_iff dest: set_takeWhileD)
        have "take (length ?md) ds = take (length ?md) (take 3 ds)"
          using len by (simp add: min_def)
        also have "\<dots> = ?md"
          by (metis append_eq_conv_conj takeWhile_dropWhile_id)
        finally have "ds = ?md @ r3" by (metis append_take_drop_id md(4))
        with md len dig cs Cons dot True \<open>r2 = c # cs\<close> sdne show ?thesis
          by auto
      qed
    qed
  qed
qed

lemma opt_tz_SomeD:
  assumes "opt_tz r = Some tz"
  shows "(r = [] \<and> tz = None) \<or> (r = [0x5A] \<and> tz = Some [0x5A]) \<or>
         (\<exists>sg hh mm. (sg = 0x2B \<or> sg = 0x2D) \<and> r = sg # hh @ 0x3A # mm \<and> tz = Some r \<and>
            length hh = 2 \<and> list_all is_digit hh \<and> length mm = 2 \<and> list_all is_digit mm)"
proof (cases r)
  case Nil
  with assms show ?thesis by (simp add: opt_tz_def)
next
  case (Cons c cs)
  show ?thesis
  proof (cases "c = 0x5A")
    case True
    with assms Cons show ?thesis by (auto simp: opt_tz_def split: if_splits)
  next
    case False
    with assms Cons have sg: "c = 0x2B \<or> c = 0x2D"
      by (auto simp: opt_tz_def split: if_splits)
    with assms Cons False obtain hh r1 r2 mm r3 where
      "take_digits 2 cs = Some (hh, r1)" "expect 0x3A r1 = Some r2"
      "take_digits 2 r2 = Some (mm, r3)" "r3 = []" "tz = Some r"
      by (auto simp: opt_tz_def split: if_splits Option.bind_splits)
    with sg Cons show ?thesis
      by (auto dest!: take_digits_Some expect_Some)
  qed
qed


lemma ISO_RE_SomeD:
  assumes "ISO_RE s = Some m"
  obtains (date) Y Mo D where
      "s = Y @ 0x2D # Mo @ 0x2D # D"
      "m = \<lparr>grpY = Y, grpMo = Mo, grpD = D, grph = None, grpmi = None,
             grpse = None, grpms = None, grptz = None\<rparr>"
      "length Y = 4" "list_all is_digit Y" "length Mo = 2" "list_all is_digit Mo"
      "length D = 2" "list_all is_digit D"
  | (time) Y Mo D c h mi rs se ms rt tz where
      "s = Y @ 0x2D # Mo @ 0x2D # D @ c # h @ 0x3A # mi @ rs"
      "m = \<lparr>grpY = Y, grpMo = Mo, grpD = D, grph = Some h, grpmi = Some mi,
             grpse = se, grpms = ms, grptz = tz\<rparr>"
      "length Y = 4" "list_all is_digit Y" "length Mo = 2" "list_all is_digit Mo"
      "length D = 2" "list_all is_digit D" "c = 0x54 \<or> is_ws c"
      "length h = 2" "list_all is_digit h" "length mi = 2" "list_all is_digit mi"
      "opt_seconds rs = Some (se, ms, rt)" "opt_tz rt = Some tz"
proof -
  from assms obtain Y r1 ra Mo rb rc D r where
    p: "take_digits 4 s = Some (Y, r1)" "expect 0x2D r1 = Some ra"
       "take_digits 2 ra = Some (Mo, rb)" "expect 0x2D rb = Some rc"
       "take_digits 2 rc = Some (D, r)"
    and rest: "(case r of
          [] \<Rightarrow> Some \<lparr>grpY = Y, grpMo = Mo, grpD = D, grph = None, grpmi = None,
                       grpse = None, grpms = None, grptz = None\<rparr>
        | c # cs \<Rightarrow>
            if c = 0x54 \<or> is_ws c then
              do {
                (h, r) \<leftarrow> take_digits 2 cs;
                r \<leftarrow> expect 0x3A r;
                (mi, r) \<leftarrow> take_digits 2 r;
                (se, ms, r) \<leftarrow> opt_seconds r;
                tz \<leftarrow> opt_tz r;
                Some \<lparr>grpY = Y, grpMo = Mo, grpD = D, grph = Some h, grpmi = Some mi,
                      grpse = se, grpms = ms, grptz = tz\<rparr>
              }
            else None) = Some m"
    unfolding ISO_RE_def by (auto split: Option.bind_splits)
  from p have s: "s = Y @ 0x2D # Mo @ 0x2D # D @ r"
    and g: "length Y = 4" "list_all is_digit Y" "length Mo = 2" "list_all is_digit Mo"
      "length D = 2" "list_all is_digit D"
    by (auto dest!: take_digits_Some expect_Some)
  show thesis
  proof (cases r)
    case Nil
    with rest s g show thesis by (intro date [where Y = Y and Mo = Mo and D = D]) simp_all
  next
    case (Cons c cs)
    with rest have c: "c = 0x54 \<or> is_ws c"
      by (auto split: if_splits)
    with rest Cons obtain h rd re mi r2 se ms r3 tz where
      q: "take_digits 2 cs = Some (h, rd)" "expect 0x3A rd = Some re"
         "take_digits 2 re = Some (mi, r2)" "opt_seconds r2 = Some (se, ms, r3)"
         "opt_tz r3 = Some tz"
         "m = \<lparr>grpY = Y, grpMo = Mo, grpD = D, grph = Some h, grpmi = Some mi,
               grpse = se, grpms = ms, grptz = tz\<rparr>"
      by (auto split: if_splits Option.bind_splits)
    from q(1-3) have "cs = h @ 0x3A # mi @ r2"
      and "length h = 2" "list_all is_digit h" "length mi = 2" "list_all is_digit mi"
      by (auto dest!: take_digits_Some expect_Some)
    with s g c Cons q(4-6) show thesis
      by (intro time [where Y = Y and Mo = Mo and D = D and c = c and h = h and mi = mi
          and rs = r2 and se = se and ms = ms and rt = r3 and tz = tz]) simp_all
  qed
qed


lemma num_2_digits: "length ds = 2 \<Longrightarrow> list_all is_digit ds \<Longrightarrow> 0 \<le> num ds \<and> num ds \<le> 99"
  using num_bounds [of ds] by simp

lemma num_padEnd3:
  assumes "length ms \<le> 3" "list_all is_digit ms"
  shows "0 \<le> num (padEnd3 ms) \<and> num (padEnd3 ms) \<le> 999"
proof -
  have "list_all is_digit (padEnd3 ms)"
    using assms(2) by (auto simp: padEnd3_def list_all_iff is_digit_def)
  moreover have "length (padEnd3 ms) = 3"
    using assms(1) by (simp add: padEnd3_def)
  ultimately show ?thesis using num_bounds [of "padEnd3 ms"] by simp
qed

lemma split_no_separator: "d \<notin> set b \<Longrightarrow> split d b = [b]"
  by (induction b) auto

lemma split_at_separator: "d \<notin> set a \<Longrightarrow> split d (a @ d # b) = a # split d b"
  by (induction a) auto

lemma digit_not_colon: "list_all is_digit ds \<Longrightarrow> 0x3A \<notin> set ds"
  by (auto simp: list_all_iff is_digit_def)

lemma split_offset:
  "list_all is_digit hh \<Longrightarrow> list_all is_digit mm \<Longrightarrow> split 0x3A (hh @ 0x3A # mm) = [hh, mm]"
  by (simp add: split_at_separator split_no_separator digit_not_colon)

lemma TimeClip_small: "\<bar>t\<bar> \<le> 300000000000000 \<Longrightarrow> TimeClip t = Some t"
  by (simp add: TimeClip_def)

lemma TimeClip_offset:
  assumes "\<bar>t\<bar> \<le> 300000000000000" "\<bar>off\<bar> \<le> 6039"
  shows "TimeClip (t - off * 60000) = Some (t - off * 60000)"
proof -
  from assms have "\<bar>t - off * 60000\<bar> \<le> 8640000000000000" by linarith
  then show ?thesis by (simp add: TimeClip_def)
qed

lemma parseIsoToDate_Some:
  assumes "ISO_RE s = Some m"
  shows "\<exists>t. parseIsoToDate s = Some t"
  using assms
proof (cases rule: ISO_RE_SomeD)
  case (date Y Mo D)
  from date(3-8) have b: "0 \<le> num Y" "num Y \<le> 9999" "- 1 \<le> num Mo - 1" "num Mo - 1 \<le> 98"
      "0 \<le> num D" "num D \<le> 99"
    using num_bounds [of Y] num_2_digits [of Mo] num_2_digits [of D] by simp_all
  from Date_UTC_bounds [OF b, of 0 0 0 0] obtain t where
    t: "Date_UTC (num Y) (num Mo - 1) (num D) 0 0 0 0 = Some t" "\<bar>t\<bar> \<le> 300000000000000"
    by auto
  then show ?thesis
    by (simp add: parseIsoToDate_def assms date(2) TimeClip_small)
next
  case (time Y Mo D c h mi rs se ms rt tz)
  define ss where "ss = (case se of Some sd \<Rightarrow> num sd | None \<Rightarrow> 0)"
  define mss where "mss = (case ms of Some md \<Rightarrow> num (padEnd3 md) | None \<Rightarrow> 0)"
  note sec = opt_seconds_SomeD [OF time(14)]
  have ss: "0 \<le> ss" "ss \<le> 99"
    using sec num_2_digits by (auto simp: ss_def split: option.splits)
  have mss: "0 \<le> mss" "mss \<le> 999"
    using sec num_padEnd3 by (auto simp: mss_def split: option.splits)
  from time(3-8,10-13) have b: "0 \<le> num Y" "num Y \<le> 9999" "- 1 \<le> num Mo - 1" "num Mo - 1 \<le> 98"
      "0 \<le> num D" "num D \<le> 99" "0 \<le> num h" "num h \<le> 99" "0 \<le> num mi" "num mi \<le> 99"
    using num_bounds [of Y] num_2_digits [of Mo] num_2_digits [of D]
      num_2_digits [of h] num_2_digits [of mi] by simp_all
  from Date_UTC_bounds [OF b ss mss] obtain t where
    t: "Date_UTC (num Y) (num Mo - 1) (num D) (num h) (num mi) ss mss = Some t"
      "\<bar>t\<bar> \<le> 300000000000000"
    by auto
  from opt_tz_SomeD [OF time(15)]
  consider "tz = None" | "tz = Some [0x5A]"
    | sg hh mm where "sg = 0x2B \<or> sg = 0x2D" "tz = Some (sg # hh @ 0x3A # mm)"
        "length hh = 2" "list_all is_digit hh" "length mm = 2" "list_all is_digit mm"
    by blast
  then show ?thesis
  proof cases
    case 1
    with t show ?thesis
      by (simp add: parseIsoToDate_def assms time(2) TimeClip_small ss_def mss_def)
  next
    case 2
    with t show ?thesis
      by (simp add: parseIsoToDate_def assms time(2) TimeClip_small ss_def mss_def)
  next
    case (3 sg hh mm)
    define off where "off = (if sg = 0x2D then - 1 else 1) * (num hh * 60 + num mm)"
    from 3(3-6) have "0 \<le> num hh" "num hh \<le> 99" "0 \<le> num mm" "num mm \<le> 99"
      using num_2_digits [of hh] num_2_digits [of mm] by simp_all
    then have "\<bar>off\<bar> \<le> 6039" by (auto simp: off_def)
    from TimeClip_offset [OF t(2) this]
    have "TimeClip (t - off * 60000) = Some (t - off * 60000)" .
    moreover from 3 have "sg # hh @ 0x3A # mm \<noteq> [0x5A]" by auto
    ultimately show ?thesis
      using t 3 split_offset [OF 3(4,6)]
      by (simp add: parseIsoToDate_def assms time(2) ss_def mss_def off_def Let_def)
  qed
qed

lemma parseIsoToDate_iff: "parseIsoToDate s \<noteq> None \<longleftrightarrow> ISO_RE s \<noteq> None"
proof
  assume "parseIsoToDate s \<noteq> None"
  then show "ISO_RE s \<noteq> None"
    by (cases "ISO_RE s") (simp_all add: parseIsoToDate_def)
next
  assume "ISO_RE s \<noteq> None"
  then obtain m where "ISO_RE s = Some m" by blast
  from parseIsoToDate_Some [OF this] show "parseIsoToDate s \<noteq> None" by auto
qed


lemma digits_last: "ds \<noteq> [] \<Longrightarrow> list_all is_digit ds \<Longrightarrow> \<not> is_ws (last ds)"
  by (meson digit_not_ws last_in_set list_all_iff)

lemma digits_hd: "ds \<noteq> [] \<Longrightarrow> list_all is_digit ds \<Longrightarrow> \<not> is_ws (hd ds)"
  by (meson digit_not_ws hd_in_set list_all_iff)

lemma opt_tz_last:
  assumes "opt_tz r = Some tz"
  shows "r = [] \<or> \<not> is_ws (last r)"
proof -
  from opt_tz_SomeD [OF assms]
  consider "r = []" | "r = [0x5A]"
    | sg hh mm where "r = sg # hh @ 0x3A # mm" "length mm = 2" "list_all is_digit mm"
    by blast
  then show ?thesis
  proof cases
    case 1 then show ?thesis by simp
  next
    case 2 then show ?thesis by (simp add: is_ws_def)
  next
    case (3 sg hh mm)
    from 3(2) have "mm \<noteq> []" by auto
    with 3 digits_last [of mm] show ?thesis by simp
  qed
qed

lemma opt_seconds_last:
  assumes "opt_seconds rs = Some (se, ms, rt)" and "rt = [] \<or> \<not> is_ws (last rt)"
  shows "rs = [] \<or> \<not> is_ws (last rs)"
proof -
  from opt_seconds_SomeD [OF assms(1)]
  consider "rs = rt"
    | sd where "sd \<noteq> []" "list_all is_digit sd" "rs = 0x3A # sd @ rt"
    | sd md where "md \<noteq> []" "list_all is_digit md" "rs = 0x3A # sd @ 0x2E # md @ rt"
    by blast
  then show ?thesis
  proof cases
    case 1 with assms(2) show ?thesis by simp
  next
    case (2 sd)
    with assms(2) digits_last [of sd] show ?thesis by (cases "rt = []") simp_all
  next
    case (3 sd md)
    with assms(2) digits_last [of md] show ?thesis by (cases "rt = []") simp_all
  qed
qed

lemma ISO_RE_trim:
  assumes "ISO_RE s = Some m"
  shows "trim s = s"
  using assms
proof (cases rule: ISO_RE_SomeD)
  case (date Y Mo D)
  from date(3,7) have ne: "Y \<noteq> []" "D \<noteq> []" by auto
  with date(1) have "hd s = hd Y" "last s = last D" "s \<noteq> []" by simp_all
  with ne date(4,8) digits_hd [of Y] digits_last [of D] show ?thesis
    by (intro trim_id) simp_all
next
  case (time Y Mo D c h mi rs se ms rt tz)
  from time(3,12) have ne: "Y \<noteq> []" "mi \<noteq> []" by auto
  with time(1) have h: "hd s = hd Y" "s \<noteq> []" by simp_all
  from opt_seconds_last [OF time(14) opt_tz_last [OF time(15)]]
  have "rs = [] \<or> \<not> is_ws (last rs)" .
  with time(1) ne digits_last [OF ne(2) time(13)] have "\<not> is_ws (last s)"
    by (cases "rs = []") simp_all
  with h ne time(4) digits_hd [of Y] show ?thesis
    by (intro trim_id) simp_all
qed

lemma parseIsoToDate_trim: "parseIsoToDate s \<noteq> None \<Longrightarrow> trim s = s"
  using ISO_RE_trim parseIsoToDate_iff by blast

section \<open>Calendar values that the code accepts\<close>

lemmas instant_defs =
  utc_instant_def MakeDate_def MakeDay_def MakeTime_def month_start_def InLeapYear_def
  DayFromYear_def msPerDay_def Let_def

text \<open>
  C1. The specification has a string that matches the ISO pattern but names an
  out-of-range calendar field fail the match. \<open>parseIsoToDate\<close> does not: \<open>Date.UTC\<close>
  carries an out-of-range field over into the next month or year, its result is never
  \<open>NaN\<close> on a match of the pattern, and the test \<open>isNaN(d.getTime())\<close> never rejects.
  Every string that matches the pattern is accepted; \<open>2024-02-31\<close> is read as 2 March
  2024, \<open>2024-13-01\<close> as 1 January 2025, and the text \<open>2024-02-31,5\<close> parses.
\<close>

theorem invalid_calendar_values_accepted:
  "(\<forall>s. ISO_RE s \<noteq> None \<longrightarrow> parseIsoToDate s \<noteq> None) \<and>
   parseIsoToDate (utf16 ''2024-02-31'') = Some 1709337600000 \<and>
   parseIsoToDate (utf16 ''2024-03-02'') = Some 1709337600000 \<and>
   parseIsoToDate (utf16 ''2024-13-01'') = Some 1735689600000 \<and>
   parseIsoToDate (utf16 ''2025-01-01'') = Some 1735689600000 \<and>
   parseDataText (utf16 ''2024-02-31,5'') =
     Inr \<lparr>timeAxisName = utf16 ''X'', valueAxisName = utf16 ''Value'',
          dataPoints = [(XDate 1709337600000, Finite 5)]\<rparr>"
proof (intro conjI allI impI)
  fix s assume "ISO_RE s \<noteq> None"
  then show "parseIsoToDate s \<noteq> None" by (simp only: parseIsoToDate_iff not_False_eq_True)
next
  show "parseIsoToDate (utf16 ''2024-02-31'') = Some 1709337600000"
    by (simp add: string_defs date_defs cong: weak_congs)
next
  show "parseIsoToDate (utf16 ''2024-03-02'') = Some 1709337600000"
    by (simp add: string_defs date_defs cong: weak_congs)
next
  show "parseIsoToDate (utf16 ''2024-13-01'') = Some 1735689600000"
    by (simp add: string_defs date_defs cong: weak_congs)
next
  show "parseIsoToDate (utf16 ''2025-01-01'') = Some 1735689600000"
    by (simp add: string_defs date_defs cong: weak_congs)
next
  show "parseDataText (utf16 ''2024-02-31,5'') =
     Inr \<lparr>timeAxisName = utf16 ''X'', valueAxisName = utf16 ''Value'',
          dataPoints = [(XDate 1709337600000, Finite 5)]\<rparr>"
    by (simp add: eval_defs cong: weak_congs)
qed

theorem invalid_calendar_values_accepted_witness:
  "ISO_RE (utf16 ''2024-02-31'') \<noteq> None \<and> parseIsoToDate (utf16 ''2024-02-31'') \<noteq> None"
proof -
  have m: "ISO_RE (utf16 ''2024-02-31'') \<noteq> None"
    by (simp add: string_defs date_defs cong: weak_congs)
  from invalid_calendar_values_accepted
  have "\<forall>s. ISO_RE s \<noteq> None \<longrightarrow> parseIsoToDate s \<noteq> None"
    by (rule conjunct1)
  with m show ?thesis by blast
qed

text \<open>
  C6. The specification has a date-only string denote midnight UTC of that date.
  \<open>Date.UTC\<close> reads a year from 0 to 99 as 1900 plus that year, so the string
  \<open>0050-01-01\<close> is read as midnight UTC of 1 January 1950, not of 1 January of the year
  50. The example of the specification holds: \<open>2024-01-01T10:00:00+02:00\<close> is the instant
  \<open>2024-01-01T08:00:00Z\<close>.
\<close>

theorem two_digit_year_shifted:
  "parseIsoToDate (utf16 ''0050-01-01'') = Some (- 631152000000) \<and>
   utc_instant 1950 1 1 0 0 0 0 = - 631152000000 \<and>
   utc_instant 50 1 1 0 0 0 0 = - 60589296000000 \<and>
   parseDataText (utf16 ''0050-01-01,5'') =
     Inr \<lparr>timeAxisName = utf16 ''X'', valueAxisName = utf16 ''Value'',
          dataPoints = [(XDate (- 631152000000), Finite 5)]\<rparr> \<and>
   parseIsoToDate (utf16 ''2024-01-01T10:00:00+02:00'') = Some 1704096000000 \<and>
   utc_instant 2024 1 1 8 0 0 0 = 1704096000000 \<and>
   parseIsoToDate (utf16 ''2024-01-01T08:00:00Z'') = Some 1704096000000"
proof (intro conjI)
  show "parseIsoToDate (utf16 ''0050-01-01'') = Some (- 631152000000)"
    by (simp add: string_defs date_defs cong: weak_congs)
  show "utc_instant 1950 1 1 0 0 0 0 = - 631152000000"
    by (simp add: instant_defs cong: weak_congs)
  show "utc_instant 50 1 1 0 0 0 0 = - 60589296000000"
    by (simp add: instant_defs cong: weak_congs)
  show "parseDataText (utf16 ''0050-01-01,5'') =
     Inr \<lparr>timeAxisName = utf16 ''X'', valueAxisName = utf16 ''Value'',
          dataPoints = [(XDate (- 631152000000), Finite 5)]\<rparr>"
    by (simp add: eval_defs cong: weak_congs)
  show "parseIsoToDate (utf16 ''2024-01-01T10:00:00+02:00'') = Some 1704096000000"
    by (simp add: string_defs date_defs cong: weak_congs)
  show "utc_instant 2024 1 1 8 0 0 0 = 1704096000000"
    by (simp add: instant_defs cong: weak_congs)
  show "parseIsoToDate (utf16 ''2024-01-01T08:00:00Z'') = Some 1704096000000"
    by (simp add: string_defs date_defs cong: weak_congs)
qed

theorem two_digit_year_shifted_witness:
  "parseIsoToDate (utf16 ''0050-01-01'') = Some (utc_instant 1950 1 1 0 0 0 0) \<and>
   parseIsoToDate (utf16 ''0050-01-01'') \<noteq> Some (utc_instant 50 1 1 0 0 0 0)"
  using two_digit_year_shifted by simp

section \<open>No value of a result is NaN or infinite\<close>

lemma Number_trim: "Number (trim s) = Number s"
  by (simp add: Number_def)

lemma bind_TimeClip: "Option.bind x TimeClip = Some t \<Longrightarrow> \<bar>t\<bar> \<le> 8640000000000000"
  by (cases x) (auto simp: TimeClip_def split: if_splits)

lemma parseIsoToDate_range:
  assumes "parseIsoToDate s = Some t"
  shows "\<bar>t\<bar> \<le> 8640000000000000"
proof (cases "ISO_RE s")
  case None
  with assms show ?thesis by (simp add: parseIsoToDate_def)
next
  case (Some m)
  from assms [unfolded parseIsoToDate_def Some option.case Let_def]
  show ?thesis by (rule bind_TimeClip)
qed

lemma parse_Inr_cases:
  assumes "parseDataText text = Inr r"
  obtains
    (index) "columns_of text = 1" "dataRows_of text \<noteq> []"
      "dataPoints r = map (\<lambda>(j, row). (XNumber (Finite (of_nat j)), Number (trim (row ! 0))))
                        (enumerate 0 (dataRows_of text))"
      "\<forall>row\<in>set (dataRows_of text). length row = 1 \<and> isFiniteNumberString (trim (row ! 0))"
  | (dates) "columns_of text = 2" "xAreDates_of text" "dataRows_of text \<noteq> []"
      "dataPoints r = map (\<lambda>row. (XDate (the (parseIsoToDate (row ! 0))), Number (trim (row ! 1))))
                        (dataRows_of text)"
      "\<forall>row\<in>set (dataRows_of text). length row = 2 \<and> parseIsoToDate (row ! 0) \<noteq> None \<and>
           isFiniteNumberString (trim (row ! 1))"
  | (numbers) "columns_of text = 2" "\<not> xAreDates_of text" "dataRows_of text \<noteq> []"
      "dataPoints r = map (\<lambda>row. (XNumber (Number (trim (row ! 0))), Number (trim (row ! 1))))
                        (dataRows_of text)"
      "\<forall>row\<in>set (dataRows_of text). length row = 2 \<and> isFiniteNumberString (trim (row ! 0)) \<and>
           isFiniteNumberString (trim (row ! 1))"
proof -
  note P = parse_Inr [OF assms]
  define c where "c = columns_of text"
  define dr where "dr = dataRows_of text"
  define k where "k = startIdx_of text"
  have dr: "dr = drop (if isHeaderRow c (rows_of text) then 1 else 0) (rows_of text)"
    by (simp add: dr_def dataRows_of_def startIdx_of_def c_def)
  have k: "k = (if isHeaderRow c (rows_of text) then 1 else 0)"
    by (simp add: k_def startIdx_of_def c_def)
  from build_Inr(1) [OF P(7)] have ne: "dr \<noteq> []"
    by (simp add: dr c_def)
  from build_Inr(2) [OF P(7)]
  have co: "(if c = 1 then coerce_y_only k 0 dr
            else if c = 2 \<and> list_all (\<lambda>r. parseIsoToDate (r ! 0) \<noteq> None) dr
              then coerce_dates k 0 dr
            else coerce_numbers k 0 dr) = Inr (dataPoints r)"
    unfolding dr k c_def .
  from P(4) have len: "\<forall>row\<in>set dr. length row = c"
    unfolding dr c_def by (auto dest: in_set_dropD)
  have xd: "xAreDates_of text \<longleftrightarrow> c = 2 \<and> list_all (\<lambda>r. parseIsoToDate (r ! 0) \<noteq> None) dr"
    by (simp add: xAreDates_of_def c_def dr_def)
  from P(5) consider "c = 1" | "c = 2" "xAreDates_of text" | "c = 2" "\<not> xAreDates_of text"
    unfolding c_def by blast
  then show thesis
  proof cases
    case 1
    with co have "coerce_y_only k 0 dr = Inr (dataPoints r)" by simp
    from coerce_y_only_Inr [OF this] 1 len ne show thesis
      by (intro index) (simp_all add: c_def dr_def)
  next
    case 2
    with xd have all: "list_all (\<lambda>r. parseIsoToDate (r ! 0) \<noteq> None) dr" by simp
    with co 2 have "coerce_dates k 0 dr = Inr (dataPoints r)" by simp
    note d = coerce_dates_Inr [OF this]
    from all have "\<forall>row\<in>set dr. parseIsoToDate (row ! 0) \<noteq> None"
      by (simp only: list_all_iff)
    then have tr: "\<forall>row\<in>set dr. trim (row ! 0) = row ! 0"
      by (blast intro: parseIsoToDate_trim)
    from d tr have "dataPoints r =
        map (\<lambda>row. (XDate (the (parseIsoToDate (row ! 0))), Number (trim (row ! 1)))) dr"
      by simp
    moreover from d tr len 2 have "\<forall>row\<in>set dr. length row = 2 \<and>
        parseIsoToDate (row ! 0) \<noteq> None \<and> isFiniteNumberString (trim (row ! 1))"
      by simp
    ultimately show thesis using 2 ne
      by (intro dates) (simp_all add: c_def dr_def)
  next
    case 3
    with xd have "\<not> list_all (\<lambda>r. parseIsoToDate (r ! 0) \<noteq> None) dr" by simp
    with co 3 have "coerce_numbers k 0 dr = Inr (dataPoints r)" by simp
    from coerce_numbers_Inr [OF this] 3 len ne show thesis
      by (intro numbers) (simp_all add: c_def dr_def)
  qed
qed


lemma round_half_even_ge: "n div d \<le> round_half_even n d"
  by (simp add: round_half_even_def Let_def)

lemma to_double_overflow:
  assumes "2 ^ 1024 \<le> a"
  shows "to_double sg a 1 = (if sg then NegInf else PosInf)"
proof -
  define B :: nat where "B = 1024"
  define fl where "fl = floorlog 2 a"
  from assms have aB: "2 ^ B \<le> a" by (simp only: B_def)
  have "(0::nat) < 2 ^ B" by simp
  from this aB have a0: "0 < a" by (rule less_le_trans)
  from floorlog_bounds [of a 2] a0 have lo: "2 ^ (fl - 1) \<le> a" and hi: "a < 2 ^ fl"
    by (simp_all add: fl_def)
  from aB hi have "(2::nat) ^ B < 2 ^ fl" by (rule le_less_trans)
  then have "B < fl" by simp
  then have fl: "1024 < fl" by (simp only: B_def)
  define e where "e = fl - 53"
  from fl have fle: "fl - 1 = 52 + e" by (simp add: e_def)
  have one: "floorlog 2 (Suc 0) = Suc 0" by (simp add: compute_floorlog)
  have k: "floor_log2 a 1 = int fl - 1"
    using lo fl by (simp add: floor_log2_def scale2_def Let_def one fl_def [symmetric] nat_diff_distrib)
  from fl have ee: "max (int fl - 1 - 52) (- 1074) = int e" by (simp add: e_def)
  define m where "m = round_half_even a (2 ^ e)"
  define p :: nat where "p = 2 ^ 52"
  from lo have "2 ^ (52 + e) \<le> a" by (simp only: fle)
  then have "p * 2 ^ e \<le> a" by (simp only: p_def power_add)
  then have "(p * 2 ^ e) div 2 ^ e \<le> a div 2 ^ e" by (rule div_le_mono)
  then have "p \<le> a div 2 ^ e" by simp
  also have "\<dots> \<le> m" unfolding m_def by (rule round_half_even_ge)
  finally have m52: "p \<le> m" .
  have "0 < p" by (simp add: p_def)
  with m52 have m0: "m \<noteq> 0" by simp
  from m52 have "(of_nat p :: rat) \<le> of_nat m" by (simp only: of_nat_le_iff)
  then have f: "(of_nat p :: rat) * 2 ^ e \<le> of_nat m * 2 ^ e"
    by (intro mult_right_mono) simp_all
  have g: "(of_nat p :: rat) * 2 ^ e = 2 ^ (52 + e)"
    by (simp add: p_def power_add)
  from fl have "B \<le> 52 + e" by (simp add: e_def B_def)
  then have "(2::rat) ^ B \<le> 2 ^ (52 + e)" by (intro power_increasing) simp_all
  from this f [unfolded g] have "(2::rat) ^ B \<le> of_nat m * 2 ^ e" by (rule order_trans)
  then have v: "(2::rat) ^ 1024 \<le> of_nat m * 2 powi (int e)"
    by (simp only: B_def power_int_of_nat)
  from a0 have an: "a \<noteq> 0" by simp
  have sc: "scale2 a 1 (int e) = (a, 2 ^ e)" by (simp add: scale2_def)
  show ?thesis
    unfolding to_double_def k ee sc Let_def prod.case m_def [symmetric]
    using an m0 v by (simp only: if_False if_True)
qed

lemma Number_1e400: "Number (utf16 ''1e400'') = PosInf"
proof -
  have d: "NUM_RE (utf16 ''1e400'') = Some \<lparr>neg = False, int_digits = utf16 ''1'',
      frac_digits = [], exp_neg = False, exp_digits = utf16 ''400''\<rparr>"
    by (simp add: string_defs number_defs cong: weak_congs)
  have t: "trim (utf16 ''1e400'') = utf16 ''1e400''"
    by (simp add: string_defs cong: weak_congs)
  have v: "decimal_value \<lparr>neg = False, int_digits = utf16 ''1'',
      frac_digits = [], exp_neg = False, exp_digits = utf16 ''400''\<rparr> = to_double False (10 ^ 400) 1"
    by (simp add: decimal_value_def string_defs cong: weak_congs)
  have "(2::nat) ^ 1024 \<le> 10 ^ 400" by simp
  then have "to_double False (10 ^ 400) 1 = PosInf"
    by (simp only: to_double_overflow if_False)
  with d t v show ?thesis
    by (simp add: Number_def utf16_def)
qed


text \<open>
  C5. A field of a data row that is read as a number (the Y field, and the X field
  unless the X column is all ISO dates) and whose value as a Number is not finite
  makes the parse fail; the tokens \<open>NaN\<close>, \<open>Infinity\<close> and \<open>1e400\<close> (which overflows) have
  such values. So every point of a result has a finite Y, and its X is a finite
  Number or a \<open>Date\<close> with a time value in range.
\<close>

theorem non_finite_rejected:
  "((\<exists>row\<in>set (dataRows_of text). \<exists>j<length row.
        \<not> (xAreDates_of text \<and> j = 0) \<and> \<not> isFinite (Number (row ! j)))
      \<longrightarrow> (\<exists>e. parseDataText text = Inl e)) \<and>
   (parseDataText text = Inr r \<longrightarrow>
      (\<forall>(x, y)\<in>set (dataPoints r).
         isFinite y \<and>
         (case x of XNumber n \<Rightarrow> isFinite n | XDate t \<Rightarrow> \<bar>t\<bar> \<le> 8640000000000000))) \<and>
   Number (utf16 ''NaN'') = NaN \<and> Number (utf16 ''Infinity'') = PosInf \<and>
   Number (utf16 ''1e400'') = PosInf"
proof (intro conjI impI)
  assume bad: "\<exists>row\<in>set (dataRows_of text). \<exists>j<length row.
        \<not> (xAreDates_of text \<and> j = 0) \<and> \<not> isFinite (Number (row ! j))"
  show "\<exists>e. parseDataText text = Inl e"
  proof (cases "parseDataText text")
    case (Inl e)
    then show ?thesis by blast
  next
    case (Inr r)
    from bad obtain row j where row: "row \<in> set (dataRows_of text)" and j: "j < length row"
      and num: "\<not> (xAreDates_of text \<and> j = 0)" and inf: "\<not> isFinite (Number (row ! j))"
      by blast
    from Inr have False
    proof (cases rule: parse_Inr_cases)
      case index
      with row j have "j = 0" "isFiniteNumberString (trim (row ! 0))" by auto
      with inf isFiniteNumberString_Number [of "trim (row ! 0)"] show False
        by (simp add: Number_trim)
    next
      case dates
      with row j num have "j = 1" "isFiniteNumberString (trim (row ! 1))" by auto
      with inf isFiniteNumberString_Number [of "trim (row ! 1)"] show False
        by (simp add: Number_trim)
    next
      case numbers
      with row j have "j = 0 \<or> j = 1" "isFiniteNumberString (trim (row ! 0))"
        "isFiniteNumberString (trim (row ! 1))" by auto
      with inf isFiniteNumberString_Number [of "trim (row ! 0)"]
        isFiniteNumberString_Number [of "trim (row ! 1)"] show False
        by (auto simp: Number_trim)
    qed
    then show ?thesis ..
  qed
next
  assume ok: "parseDataText text = Inr r"
  then show "\<forall>(x, y)\<in>set (dataPoints r).
         isFinite y \<and>
         (case x of XNumber n \<Rightarrow> isFinite n | XDate t \<Rightarrow> \<bar>t\<bar> \<le> 8640000000000000)"
  proof (cases rule: parse_Inr_cases)
    case index
    then show ?thesis
      by (auto simp: in_set_enumerate_eq dest!: nth_mem intro: isFiniteNumberString_Number)
  next
    case dates
    then show ?thesis
      by (auto intro: isFiniteNumberString_Number parseIsoToDate_range)
  next
    case numbers
    then show ?thesis
      by (auto intro: isFiniteNumberString_Number)
  qed
next
  show "Number (utf16 ''NaN'') = NaN"
    by (simp add: string_defs number_defs cong: weak_congs)
next
  show "Number (utf16 ''Infinity'') = PosInf"
    by (simp add: string_defs number_defs cong: weak_congs)
next
  show "Number (utf16 ''1e400'') = PosInf"
    by (rule Number_1e400)
qed

theorem non_finite_rejected_witness:
  "(\<exists>e. parseDataText (utf16 ''1,2\<newline>3,NaN'') = Inl e) \<and>
   isFinite (Finite 2) \<and> isFinite (Finite 1) \<and> isFinite (Finite 4) \<and> isFinite (Finite 3)"
proof -
  let ?bad = "utf16 ''1,2\<newline>3,NaN''"
  let ?good = "utf16 ''1,2\<newline>3,4''"
  let ?r = "\<lparr>timeAxisName = utf16 ''X'', valueAxisName = utf16 ''Value'',
             dataPoints = [(XNumber (Finite 1), Finite 2), (XNumber (Finite 3), Finite 4)]\<rparr>"
  have rows: "dataRows_of ?bad = [[utf16 ''1'', utf16 ''2''], [utf16 ''3'', utf16 ''NaN'']]"
    by (simp add: eval_defs cong: weak_congs)
  have nd: "\<not> xAreDates_of ?bad"
    unfolding xAreDates_of_def rows by (simp add: string_defs date_defs cong: weak_congs)
  have nan: "\<not> isFinite (Number (utf16 ''NaN''))"
    by (simp add: string_defs number_defs cong: weak_congs)
  have "\<exists>row\<in>set (dataRows_of ?bad). \<exists>j<length row.
        \<not> (xAreDates_of ?bad \<and> j = 0) \<and> \<not> isFinite (Number (row ! j))"
    unfolding rows using nd nan
    by (intro bexI [of _ "[utf16 ''3'', utf16 ''NaN'']"] exI [of _ 1]) simp_all
  with non_finite_rejected [of ?bad] have 1: "\<exists>e. parseDataText ?bad = Inl e" by blast
  have good: "parseDataText ?good = Inr ?r"
    by (simp add: eval_defs cong: weak_congs)
  with non_finite_rejected [of ?good ?r]
  have "\<forall>(x, y)\<in>set (dataPoints ?r). isFinite y \<and>
      (case x of XNumber n \<Rightarrow> isFinite n | XDate t \<Rightarrow> \<bar>t\<bar> \<le> 8640000000000000)"
    by blast
  with 1 show ?thesis by simp
qed

section \<open>One representation for all X values\<close>

text \<open>
  C2, as stated, fails where it speaks of the token itself: in the text with the lines
  \<open>0,0\<close> and \<open>1 ,2\<close> the first token of the second row is \<open>1\<close> followed by a space,
  which is not a finite-number string, the X column is not a date column, and yet the
  parse succeeds, because row coercion trims the token before it tests it.
\<close>

theorem raw_x_token_counterexample:
  "rows_of (utf16 ''0,0\<newline>1 ,2'') = [[utf16 ''0'', utf16 ''0''], [utf16 ''1 '', utf16 ''2'']] \<and>
   dataRows_of (utf16 ''0,0\<newline>1 ,2'') = [[utf16 ''0'', utf16 ''0''], [utf16 ''1 '', utf16 ''2'']] \<and>
   columns_of (utf16 ''0,0\<newline>1 ,2'') = 2 \<and>
   \<not> xAreDates_of (utf16 ''0,0\<newline>1 ,2'') \<and>
   \<not> isFiniteNumberString (utf16 ''1 '') \<and>
   parseDataText (utf16 ''0,0\<newline>1 ,2'') =
     Inr \<lparr>timeAxisName = utf16 ''X'', valueAxisName = utf16 ''Value'',
          dataPoints = [(XNumber (Finite 0), Finite 0), (XNumber (Finite 1), Finite 2)]\<rparr>"
  by (simp add: eval_defs cong: weak_congs)

text \<open>
  C2, amended. In a result all X values have one representation: with one column the
  indices \<open>0, \<dots>, n - 1\<close>; with two columns either all finite Numbers or all \<open>Date\<close>s.
  With two columns the \<open>Date\<close>s are chosen exactly when the first token of every data
  row matches the ISO pattern; otherwise a row whose first token, once trimmed, is not
  a finite-number string makes the parse fail.
\<close>

theorem x_representation_uniform:
  "(parseDataText text = Inr r \<longrightarrow>
      dataPoints r \<noteq> [] \<and>
      ((columns_of text = 1 \<and>
          map fst (dataPoints r) =
            map (\<lambda>i. XNumber (Finite (of_nat i))) [0..<length (dataPoints r)])
       \<or> (columns_of text = 2 \<and> \<not> xAreDates_of text \<and>
          (\<forall>x\<in>set (map fst (dataPoints r)). \<exists>n. x = XNumber n \<and> isFinite n))
       \<or> (columns_of text = 2 \<and> xAreDates_of text \<and>
          (\<forall>x\<in>set (map fst (dataPoints r)). \<exists>t. x = XDate t)))) \<and>
   (xAreDates_of text \<longleftrightarrow>
      columns_of text = 2 \<and> (\<forall>row\<in>set (dataRows_of text). ISO_RE (row ! 0) \<noteq> None)) \<and>
   (columns_of text = 2 \<and> \<not> xAreDates_of text \<and>
      (\<exists>row\<in>set (dataRows_of text). \<not> isFiniteNumberString (trim (row ! 0)))
      \<longrightarrow> (\<exists>e. parseDataText text = Inl e))"
proof (intro conjI impI)
  assume ok: "parseDataText text = Inr r"
  then show "dataPoints r \<noteq> []"
    by (cases rule: parse_Inr_cases) (simp_all add: enumerate_eq_zip)
  from ok show "(columns_of text = 1 \<and>
          map fst (dataPoints r) =
            map (\<lambda>i. XNumber (Finite (of_nat i))) [0..<length (dataPoints r)])
       \<or> (columns_of text = 2 \<and> \<not> xAreDates_of text \<and>
          (\<forall>x\<in>set (map fst (dataPoints r)). \<exists>n. x = XNumber n \<and> isFinite n))
       \<or> (columns_of text = 2 \<and> xAreDates_of text \<and>
          (\<forall>x\<in>set (map fst (dataPoints r)). \<exists>t. x = XDate t))"
  proof (cases rule: parse_Inr_cases)
    case index
    from index(3) have "map fst (dataPoints r) =
        map (\<lambda>i. XNumber (Finite (of_nat i))) [0..<0 + length (dataRows_of text)]"
      by (simp only: map_fst_enumerate_map)
    moreover from index(3) have "length (dataPoints r) = length (dataRows_of text)"
      by simp
    ultimately show ?thesis using index(1) by simp
  next
    case dates
    then show ?thesis by auto
  next
    case numbers
    then show ?thesis by (auto intro: isFiniteNumberString_Number)
  qed
next
  show "xAreDates_of text \<longleftrightarrow>
      columns_of text = 2 \<and> (\<forall>row\<in>set (dataRows_of text). ISO_RE (row ! 0) \<noteq> None)"
    by (simp only: xAreDates_of_def list_all_iff parseIsoToDate_iff)
next
  assume a: "columns_of text = 2 \<and> \<not> xAreDates_of text \<and>
      (\<exists>row\<in>set (dataRows_of text). \<not> isFiniteNumberString (trim (row ! 0)))"
  show "\<exists>e. parseDataText text = Inl e"
  proof (cases "parseDataText text")
    case (Inl e)
    then show ?thesis by blast
  next
    case (Inr r)
    then have False
      using a by (cases rule: parse_Inr_cases) auto
    then show ?thesis ..
  qed
qed


theorem x_representation_uniform_witness:
  "(\<exists>n. XNumber (Finite 3) = XNumber n \<and> isFinite n) \<and>
   (\<exists>t. XDate 1704153600000 = XDate t) \<and>
   (\<exists>e. parseDataText (utf16 ''1,2\<newline>x,4'') = Inl e)"
proof -
  let ?nums = "utf16 ''1,2\<newline>3,4''"
  let ?dates = "utf16 ''2024-01-01,10\<newline>2024-01-02,12''"
  let ?bad = "utf16 ''1,2\<newline>x,4''"
  let ?rn = "\<lparr>timeAxisName = utf16 ''X'', valueAxisName = utf16 ''Value'',
              dataPoints = [(XNumber (Finite 1), Finite 2), (XNumber (Finite 3), Finite 4)]\<rparr>"
  let ?rd = "\<lparr>timeAxisName = utf16 ''X'', valueAxisName = utf16 ''Value'',
              dataPoints = [(XDate 1704067200000, Finite 10), (XDate 1704153600000, Finite 12)]\<rparr>"
  have n: "parseDataText ?nums = Inr ?rn" "columns_of ?nums = 2" "\<not> xAreDates_of ?nums"
    by (simp_all add: eval_defs cong: weak_congs)
  have d: "parseDataText ?dates = Inr ?rd" "columns_of ?dates = 2" "xAreDates_of ?dates"
    by (simp_all add: eval_defs cong: weak_congs)
  have b: "columns_of ?bad = 2" "\<not> xAreDates_of ?bad"
    "dataRows_of ?bad = [[utf16 ''1'', utf16 ''2''], [utf16 ''x'', utf16 ''4'']]"
    "\<not> isFiniteNumberString (trim (utf16 ''x''))"
    by (simp_all add: eval_defs cong: weak_congs)
  from x_representation_uniform [of ?nums ?rn] n
  have 1: "\<forall>x\<in>set (map fst (dataPoints ?rn)). \<exists>n. x = XNumber n \<and> isFinite n"
    by simp
  from x_representation_uniform [of ?dates ?rd] d
  have 2: "\<forall>x\<in>set (map fst (dataPoints ?rd)). \<exists>t. x = XDate t"
    by simp
  have "\<exists>row\<in>set (dataRows_of ?bad). \<not> isFiniteNumberString (trim (row ! 0))"
    unfolding b(3) using b(4) by simp
  with x_representation_uniform [of ?bad] b(1,2)
  have 3: "\<exists>e. parseDataText ?bad = Inl e" by blast
  from 1 2 3 show ?thesis by simp
qed

end
